theory Spec2Isabelle
  imports Main "HOL-Library.Word"
begin

unbundle bit_operations_syntax

section \<open>HTT receive path: ring sizing, refill, address hash table, reassembly\<close>

text \<open>
  A shallow embedding of the parts of \<^verbatim>\<open>core/dp/htt/htt_rx.c\<close> that manage the
  MAC DMA rx ring: the sizing formulas, \<^verbatim>\<open>htt_rx_ring_fill_n\<close>, the rx buffer hash
  table, and the two A-MSDU pop routines. C \<^verbatim>\<open>int\<close> counters and indices are
  mathematical integers (the values stay far below \<open>2^31\<close>); the MSDU length
  arithmetic of the chained-buffer loop, where wrap-around is the point, is done on
  32-bit words; bus addresses are 64-bit words.
\<close>

subsection \<open>Compile-time constants of htt\_rx.c\<close>

definition HTT_RX_RING_SIZE_MIN :: int where
  "HTT_RX_RING_SIZE_MIN = 128"

definition HTT_RX_RING_SIZE_MAX :: int where
  "HTT_RX_RING_SIZE_MAX = 2048"

definition HTT_RX_AVG_FRM_BYTES :: int where
  "HTT_RX_AVG_FRM_BYTES = 1000"

definition HTT_RX_HOST_LATENCY_MAX_MS :: int where
  "HTT_RX_HOST_LATENCY_MAX_MS = 20"

definition RX_NUM_HASH_BUCKETS :: nat where
  "RX_NUM_HASH_BUCKETS = 1024"

definition RX_ENTRIES_SIZE :: nat where
  "RX_ENTRIES_SIZE = 10"

subsection \<open>Ring size and fill level\<close>

text \<open>
  Modelled from the spec: \<^verbatim>\<open>qdf_get_pwr2\<close> is declared outside the sources at hand.
  The spec describes it as rounding up to the next power of two; \<open>pwr2_from p v\<close>
  doubles \<open>p\<close> until it reaches \<open>v\<close>.
\<close>

function pwr2_from :: "nat \<Rightarrow> nat \<Rightarrow> nat" where
  "pwr2_from p v = (if 0 < p \<and> p < v then pwr2_from (2 * p) v else p)"
  by pat_completeness auto
termination
  by (relation "measure (\<lambda>(p, v). v - p)") auto

definition qdf_get_pwr2 :: "int \<Rightarrow> int" where
  "qdf_get_pwr2 v = int (pwr2_from 1 (nat v))"

text \<open>
  C integer division truncates; every operand below is non-negative for a
  non-negative throughput, where truncation and \<open>div\<close> agree. The argument
  \<open>mbps\<close> is \<^verbatim>\<open>ol_cfg_max_thruput_mbps(pdev->ctrl_pdev)\<close>.
\<close>

definition htt_rx_ring_size :: "int \<Rightarrow> int" where
  "htt_rx_ring_size mbps =
     (let size0 = mbps * 1000 div (8 * HTT_RX_AVG_FRM_BYTES) * HTT_RX_HOST_LATENCY_MAX_MS;
          size1 = (if size0 < HTT_RX_RING_SIZE_MIN then HTT_RX_RING_SIZE_MIN
                   else if size0 > HTT_RX_RING_SIZE_MAX then HTT_RX_RING_SIZE_MAX
                   else size0)
      in qdf_get_pwr2 size1)"

text \<open>
  \<open>raw_fill_level\<close> is the first assignment of \<^verbatim>\<open>htt_rx_ring_fill_level\<close>;
  \<open>latency\<close> is \<^verbatim>\<open>HTT_RX_HOST_LATENCY_WORST_LIKELY_MS\<close> (20 with
  \<^verbatim>\<open>QCA_WIFI_3_0\<close>, 10 otherwise) and \<open>ring_sz\<close> is \<^verbatim>\<open>pdev->rx_ring.size\<close>.
\<close>

definition raw_fill_level :: "int \<Rightarrow> int \<Rightarrow> int" where
  "raw_fill_level mbps latency = mbps * 1000 div (8 * HTT_RX_AVG_FRM_BYTES) * latency"

definition htt_rx_ring_fill_level :: "int \<Rightarrow> int \<Rightarrow> int \<Rightarrow> int" where
  "htt_rx_ring_fill_level mbps latency ring_sz =
     (let size0 = qdf_get_pwr2 (raw_fill_level mbps latency)
      in if size0 \<ge> ring_sz then ring_sz - 1 else size0)"

definition is_pwr2 :: "int \<Rightarrow> bool" where
  "is_pwr2 v = (\<exists>k::nat. v = 2 ^ k)"

subsection \<open>The rx buffer hash table\<close>

text \<open>
  \<^verbatim>\<open>qdf_dma_addr_t\<close> is a 64-bit bus address. \<^verbatim>\<open>qdf_nbuf_t\<close> is a pointer to a
  network buffer: \<open>None\<close> is \<^verbatim>\<open>NULL\<close>, \<open>Some h\<close> the buffer with handle \<open>h\<close>.
\<close>

type_synonym qdf_dma_addr_t = "64 word"

type_synonym qdf_nbuf_t = "nat option"

text \<open>
  Modelled from the spec: \<^verbatim>\<open>HTT_ASSERT_ALWAYS\<close> is defined outside the sources at
  hand; the spec's error policy makes a failed assertion an immediate abort. A
  function that can stop this way, or by dereferencing a \<^verbatim>\<open>NULL\<close> table pointer
  or a \<^verbatim>\<open>NULL\<close> ring slot, returns \<open>Inl\<close> of the reason.
\<close>

datatype fatal = ASSERT_ALWAYS_FAILED | NULL_HASH_TABLE | NULL_NETBUF

text \<open>
  Modelled from the spec: \<^verbatim>\<open>htt_paddr_trim_to_37\<close> is defined outside the sources at
  hand. It strips the marker bits that \<^verbatim>\<open>htt_rx_paddr_mark_high_bits\<close> may have set
  above the low 37 address bits.
\<close>

definition htt_paddr_trim_to_37 :: "qdf_dma_addr_t \<Rightarrow> qdf_dma_addr_t" where
  "htt_paddr_trim_to_37 pa = pa AND 0x1FFFFFFFFF"

text \<open>The variant of \<^verbatim>\<open>htt_rx_paddr_mark_high_bits\<close> without debug address marking.\<close>

definition htt_rx_paddr_mark_high_bits :: "qdf_dma_addr_t \<Rightarrow> qdf_dma_addr_t" where
  "htt_rx_paddr_mark_high_bits pa = pa"

definition RX_HASH_FUNCTION :: "qdf_dma_addr_t \<Rightarrow> nat" where
  "RX_HASH_FUNCTION a =
     unat ((drop_bit 14 a XOR drop_bit 4 a) AND word_of_nat (RX_NUM_HASH_BUCKETS - 1))"

record htt_rx_hash_entry =
  paddr :: qdf_dma_addr_t
  netbuf :: qdf_nbuf_t
  fromlist :: bool

text \<open>
  A bucket holds two circular doubly-linked lists threaded through the entries'
  \<^verbatim>\<open>listnode\<close>. Each is modelled by the list of its entries in the order
  \<^verbatim>\<open>HTT_LIST_ITER_FWD\<close> visits them (from \<^verbatim>\<open>head->next\<close>):
  \<^verbatim>\<open>htt_list_add_tail\<close> appends at the end, \<^verbatim>\<open>htt_list_remove\<close> deletes one node.
\<close>

record htt_rx_hash_bucket =
  listhead :: "htt_rx_hash_entry list"
  freepool :: "htt_rx_hash_entry list"

type_synonym htt_hash_table = "nat \<Rightarrow> htt_rx_hash_bucket"

text \<open>
  \<^verbatim>\<open>htt_rx_hash_init\<close>: every bucket starts with an empty active list and
  \<^verbatim>\<open>RX_ENTRIES_SIZE\<close> pre-allocated entries (\<^verbatim>\<open>fromlist = 1\<close>) in its free pool.
\<close>

definition htt_rx_hash_init :: htt_hash_table where
  "htt_rx_hash_init =
     (\<lambda>i. \<lparr>listhead = [],
            freepool = replicate RX_ENTRIES_SIZE \<lparr>paddr = 0, netbuf = None, fromlist = True\<rparr>\<rparr>)"

text \<open>
  \<^verbatim>\<open>htt_rx_hash_list_insert\<close>. \<open>malloc_ok\<close> tells whether \<^verbatim>\<open>qdf_mem_malloc\<close> of an
  overflow entry succeeds, should the bucket's free pool be empty. On a failed
  allocation the source runs \<^verbatim>\<open>HTT_ASSERT_ALWAYS(0)\<close> before \<^verbatim>\<open>rc = 1\<close>. The
  result is the return code and the table.
\<close>

definition htt_rx_hash_list_insert ::
  "htt_hash_table \<Rightarrow> bool \<Rightarrow> qdf_dma_addr_t \<Rightarrow> qdf_nbuf_t \<Rightarrow> fatal + (int \<times> htt_hash_table)" where
  "htt_rx_hash_list_insert tbl malloc_ok pa nb =
     (let pa' = htt_paddr_trim_to_37 pa;
          i = RX_HASH_FUNCTION pa';
          b = tbl i
      in case freepool b of
           e # pool \<Rightarrow>
             Inr (0, tbl(i := b\<lparr>listhead := listhead b @ [e\<lparr>netbuf := nb, paddr := pa'\<rparr>],
                                freepool := pool\<rparr>))
         | [] \<Rightarrow>
             if malloc_ok
             then Inr (0, tbl(i := b\<lparr>listhead := listhead b @
                                        [\<lparr>paddr = pa', netbuf = nb, fromlist = False\<rparr>]\<rparr>))
             else Inl ASSERT_ALWAYS_FAILED)"

text \<open>
  The \<^verbatim>\<open>HTT_LIST_ITER_FWD\<close> loop of \<^verbatim>\<open>htt_rx_hash_list_lookup\<close>: the first entry whose
  \<^verbatim>\<open>paddr\<close> equals the key, together with the list after \<^verbatim>\<open>htt_list_remove\<close> of
  that entry; \<open>None\<close> when the loop reaches the head again without a match.
\<close>

fun hash_list_iter ::
  "htt_rx_hash_entry list \<Rightarrow> qdf_dma_addr_t \<Rightarrow> (htt_rx_hash_entry \<times> htt_rx_hash_entry list) option" where
  "hash_list_iter [] a = None"
| "hash_list_iter (e # es) a =
     (if paddr e = a then Some (e, es)
      else (case hash_list_iter es a of
              None \<Rightarrow> None
            | Some (f, rest) \<Rightarrow> Some (f, e # rest)))"

text \<open>
  \<^verbatim>\<open>htt_rx_hash_list_lookup\<close>. The first argument is \<^verbatim>\<open>pdev->rx_ring.hash_table\<close>
  (\<open>None\<close> once \<^verbatim>\<open>htt_rx_hash_deinit\<close> has detached it), \<open>recovery\<close> is
  \<^verbatim>\<open>cds_is_self_recovery_enabled()\<close>. The result is the buffer returned, the table,
  and whether \<^verbatim>\<open>cds_trigger_recovery\<close> was called.
\<close>

definition htt_rx_hash_list_lookup ::
  "htt_hash_table option \<Rightarrow> bool \<Rightarrow> qdf_dma_addr_t \<Rightarrow>
     fatal + (qdf_nbuf_t \<times> htt_hash_table option \<times> bool)" where
  "htt_rx_hash_list_lookup ht recovery a =
     (case ht of
        None \<Rightarrow> Inr (None, None, False)
      | Some tbl \<Rightarrow>
          (let i = RX_HASH_FUNCTION a;
               b = tbl i;
               (nb, tbl') =
                 (case hash_list_iter (listhead b) a of
                    None \<Rightarrow> (None, tbl)
                  | Some (e, rest) \<Rightarrow>
                      (netbuf e,
                       tbl(i := b\<lparr>listhead := rest,
                                  freepool := (if fromlist e
                                               then freepool b @ [e\<lparr>netbuf := None\<rparr>]
                                               else freepool b)\<rparr>)))
           in if nb = None
              then (if recovery then Inr (None, Some tbl', True)
                    else Inl ASSERT_ALWAYS_FAILED)
              else Inr (nb, Some tbl', False)))"

text \<open>
  The entry a lookup of \<open>a\<close> would match, without removing it: the first active
  entry of \<open>a\<close>'s bucket that carries \<open>a\<close>.
\<close>

definition hash_list_peek :: "htt_hash_table \<Rightarrow> qdf_dma_addr_t \<Rightarrow> htt_rx_hash_entry option" where
  "hash_list_peek tbl a = find (\<lambda>e. paddr e = a) (listhead (tbl (RX_HASH_FUNCTION a)))"

subsection \<open>Network buffers and the device state\<close>

text \<open>
  The rx descriptor the hardware writes in front of the payload, as the fields
  the pop routines extract from it (the masks and shifts are declared outside the
  sources at hand): the \<^verbatim>\<open>MSDU_DONE\<close> and \<^verbatim>\<open>MPDU_LENGTH_ERR\<close> bits of the attention
  word, \<^verbatim>\<open>RING2_MORE_COUNT\<close> of \<^verbatim>\<open>frag_info\<close>, \<^verbatim>\<open>MSDU_LENGTH\<close> of \<^verbatim>\<open>msdu_start\<close>,
  \<^verbatim>\<open>LAST_MSDU\<close> of \<^verbatim>\<open>msdu_end\<close>, and the byte \<^verbatim>\<open>fw_desc.u.val\<close>.
\<close>

record htt_host_rx_desc_base =
  attention_msdu_done :: bool
  attention_mpdu_length_err :: bool
  frag_info_ring2_more_count :: nat
  msdu_start_msdu_length :: "32 word"
  msdu_end_last_msdu :: bool
  fw_desc_val :: "8 word"

text \<open>
  A network buffer: its visible data length, its \<^verbatim>\<open>next\<close> link, whether it is
  mapped for the device, and its rx descriptor.
\<close>

record qdf_nbuf =
  nb_len :: nat
  nb_next :: qdf_nbuf_t
  nb_mapped :: bool
  rx_desc :: htt_host_rx_desc_base

text \<open>
  \<^verbatim>\<open>struct htt_pdev_t\<close>, restricted to what the modelled functions read and write.
  \<open>ring_size\<close> is \<^verbatim>\<open>rx_ring.size\<close>; \<open>alloc_idx\<close> is the value at
  \<^verbatim>\<open>rx_ring.alloc_idx.vaddr\<close>, read into a C \<^verbatim>\<open>int\<close>; \<open>sw_rd_idx\<close> is
  \<^verbatim>\<open>rx_ring.sw_rd_idx.msdu_payld\<close>; \<open>refill_debt\<close> is the value
  \<^verbatim>\<open>qdf_atomic_read\<close> returns during the call. The two ring arrays are indexed by
  slot. \<open>nbufs\<close> is the store of buffers by handle. Three logs record calls into
  collaborators: \<open>freed\<close> (\<^verbatim>\<open>qdf_nbuf_free\<close>), \<open>mic_errors\<close>
  (\<^verbatim>\<open>ol_rx_mic_error_handler\<close>) and \<open>recovery_triggers\<close> (\<^verbatim>\<open>cds_trigger_recovery\<close>).
\<close>

record htt_pdev_t =
  is_full_reorder_offload :: bool
  ring_size :: int
  size_mask :: int
  fill_level :: int
  fill_cnt :: int
  alloc_idx :: int
  sw_rd_idx :: int
  refill_debt :: int
  netbufs_ring :: "int \<Rightarrow> qdf_nbuf_t"
  paddrs_ring :: "int \<Rightarrow> qdf_dma_addr_t"
  hash_table :: "htt_hash_table option"
  pop_fail_cnt :: int
  refill_retry_timer_starts :: int
  refill_retry_timer_running :: bool
  nbufs :: "nat \<Rightarrow> qdf_nbuf"
  freed :: "nat list"
  mic_errors :: "nat list"
  recovery_triggers :: nat

definition qdf_nbuf_free :: "htt_pdev_t \<Rightarrow> nat \<Rightarrow> htt_pdev_t" where
  "qdf_nbuf_free pdev b = pdev\<lparr>freed := freed pdev @ [b]\<rparr>"

definition qdf_nbuf_map :: "htt_pdev_t \<Rightarrow> nat \<Rightarrow> htt_pdev_t" where
  "qdf_nbuf_map pdev b = pdev\<lparr>nbufs := (nbufs pdev)(b := (nbufs pdev b)\<lparr>nb_mapped := True\<rparr>)\<rparr>"

definition qdf_nbuf_unmap :: "htt_pdev_t \<Rightarrow> nat \<Rightarrow> htt_pdev_t" where
  "qdf_nbuf_unmap pdev b = pdev\<lparr>nbufs := (nbufs pdev)(b := (nbufs pdev b)\<lparr>nb_mapped := False\<rparr>)\<rparr>"

definition qdf_nbuf_set_next :: "htt_pdev_t \<Rightarrow> nat \<Rightarrow> qdf_nbuf_t \<Rightarrow> htt_pdev_t" where
  "qdf_nbuf_set_next pdev b nxt =
     pdev\<lparr>nbufs := (nbufs pdev)(b := (nbufs pdev b)\<lparr>nb_next := nxt\<rparr>)\<rparr>"

subsection \<open>Filling the ring: htt\_rx\_ring\_fill\_n\<close>

text \<open>
  What the collaborators answer in one iteration of the fill loop:
  \<^verbatim>\<open>qdf_nbuf_alloc\<close> fails; or it returns buffer \<open>b\<close> and \<^verbatim>\<open>qdf_nbuf_map\<close> fails; or
  the buffer is mapped at bus address \<open>pa\<close>, and \<open>ok\<close> tells whether an overflow
  hash entry could be allocated if one is needed.
\<close>

datatype fill_attempt = ALLOC_FAIL | MAP_FAIL nat | MAPPED nat qdf_dma_addr_t bool

datatype fill_step = FILL_CONTINUE htt_pdev_t | FILL_GOTO_UPDATE htt_pdev_t | FILL_ABORT fatal

text \<open>Clearing the attention word of a fresh buffer's rx descriptor.\<close>

definition clear_attention :: "htt_pdev_t \<Rightarrow> nat \<Rightarrow> htt_pdev_t" where
  "clear_attention pdev b =
     pdev\<lparr>nbufs := (nbufs pdev)(b := (nbufs pdev b)\<lparr>rx_desc :=
       (rx_desc (nbufs pdev b))\<lparr>attention_msdu_done := False,
                                 attention_mpdu_length_err := False\<rparr>\<rparr>)\<rparr>"

text \<open>
  One pass through the body of \<^verbatim>\<open>while (num > 0)\<close> at slot \<open>idx\<close>. An allocation
  failure restarts the retry timer, a mapping failure or a failed hash insert
  frees the buffer; all three leave the loop for \<^verbatim>\<open>update_alloc_idx\<close>. Otherwise
  the buffer is recorded (in the hash table with full reorder offload, else in
  \<^verbatim>\<open>netbufs_ring\<close>), its address is written to \<^verbatim>\<open>paddrs_ring\<close> and \<^verbatim>\<open>fill_cnt\<close> is
  incremented. The source dereferences \<^verbatim>\<open>rx_ring.hash_table\<close> unchecked. The
  \<^verbatim>\<open>qdf_nbuf_push_head\<close> that exposes the descriptor and the IPA SMMU mapping act
  on nothing the state below records and are left out.
\<close>

definition fill_one :: "fill_attempt \<Rightarrow> htt_pdev_t \<Rightarrow> int \<Rightarrow> fill_step" where
  "fill_one att pdev idx =
     (case att of
        ALLOC_FAIL \<Rightarrow>
          FILL_GOTO_UPDATE (pdev\<lparr>refill_retry_timer_starts := refill_retry_timer_starts pdev + 1,
                                  refill_retry_timer_running := True\<rparr>)
      | MAP_FAIL b \<Rightarrow> FILL_GOTO_UPDATE (qdf_nbuf_free (clear_attention pdev b) b)
      | MAPPED b pa ok \<Rightarrow>
          (let pdev1 = qdf_nbuf_map (clear_attention pdev b) b;
               paddr_marked = htt_rx_paddr_mark_high_bits pa
           in if is_full_reorder_offload pdev1
              then (case hash_table pdev1 of
                      None \<Rightarrow> FILL_ABORT NULL_HASH_TABLE
                    | Some tbl \<Rightarrow>
                        (case htt_rx_hash_list_insert tbl ok paddr_marked (Some b) of
                           Inl f \<Rightarrow> FILL_ABORT f
                         | Inr (rc, tbl') \<Rightarrow>
                             if rc \<noteq> 0
                             then FILL_GOTO_UPDATE (qdf_nbuf_free (qdf_nbuf_unmap pdev1 b) b)
                             else FILL_CONTINUE
                                    (pdev1\<lparr>hash_table := Some tbl',
                                           paddrs_ring := (paddrs_ring pdev1)(idx := paddr_marked),
                                           fill_cnt := fill_cnt pdev1 + 1\<rparr>)))
              else FILL_CONTINUE
                     (pdev1\<lparr>netbufs_ring := (netbufs_ring pdev1)(idx := Some b),
                            paddrs_ring := (paddrs_ring pdev1)(idx := paddr_marked),
                            fill_cnt := fill_cnt pdev1 + 1\<rparr>)))"

text \<open>
  The loop from \<^verbatim>\<open>moretofill\<close> to \<^verbatim>\<open>update_alloc_idx\<close>, with the locals \<open>num\<close>,
  \<open>idx\<close>, \<open>filled\<close>, \<open>debt_served\<close> and the count \<open>k\<close> of iterations so far, which
  selects the collaborators' answer \<open>env k\<close>. When \<open>num\<close> is used up and
  \<open>debt_served\<close> is below the debt, \<open>num\<close> is reloaded with the debt and the loop
  is entered again (\<^verbatim>\<open>goto moretofill\<close>). The function returns \<^verbatim>\<open>filled\<close> after
  publishing \<open>idx\<close> in \<^verbatim>\<open>alloc_idx\<close>. A run that never leaves the loop has the
  value \<open>None\<close>.
\<close>

partial_function (option) fill_loop ::
  "(nat \<Rightarrow> fill_attempt) \<Rightarrow> htt_pdev_t \<Rightarrow> int \<Rightarrow> int \<Rightarrow> int \<Rightarrow> int \<Rightarrow> nat \<Rightarrow>
     (fatal + int \<times> htt_pdev_t) option" where
  "fill_loop env pdev num idx filled debt_served k =
     (if num > 0
      then (case fill_one (env k) pdev idx of
              FILL_ABORT f \<Rightarrow> Some (Inl f)
            | FILL_GOTO_UPDATE pdev' \<Rightarrow> Some (Inr (filled, pdev'\<lparr>alloc_idx := idx\<rparr>))
            | FILL_CONTINUE pdev' \<Rightarrow>
                fill_loop env pdev' (num - 1) ((idx + 1) AND size_mask pdev') (filled + 1)
                  debt_served (Suc k))
      else if debt_served < refill_debt pdev
      then fill_loop env pdev (refill_debt pdev) idx filled (debt_served + refill_debt pdev) k
      else Some (Inr (filled, pdev\<lparr>alloc_idx := idx\<rparr>)))"

text \<open>
  \<^verbatim>\<open>htt_rx_ring_fill_n\<close>: when the index read from \<^verbatim>\<open>alloc_idx\<close> is out of range or
  the request exceeds the ring size, the function logs "rx refill failed!" and
  returns \<^verbatim>\<open>filled\<close> = 0 without touching the ring.
\<close>

definition htt_rx_ring_fill_n ::
  "(nat \<Rightarrow> fill_attempt) \<Rightarrow> htt_pdev_t \<Rightarrow> int \<Rightarrow> (fatal + int \<times> htt_pdev_t) option" where
  "htt_rx_ring_fill_n env pdev num =
     (let idx = alloc_idx pdev
      in if idx < 0 \<or> idx > size_mask pdev \<or> num > ring_size pdev
         then Some (Inr (0, pdev))
         else fill_loop env pdev num idx 0 0 0)"

text \<open>
  The state \<^verbatim>\<open>htt_rx_attach\<close> has built when it calls
  \<^verbatim>\<open>htt_rx_ring_fill_n(pdev, pdev->rx_ring.fill_level)\<close>: sizes from the throughput
  hint, all counters and indices zero, the hash table initialised with full
  reorder offload and absent otherwise. \<open>st\<close> is the buffer store.
\<close>

definition htt_rx_attach_state :: "int \<Rightarrow> int \<Rightarrow> bool \<Rightarrow> (nat \<Rightarrow> qdf_nbuf) \<Rightarrow> htt_pdev_t" where
  "htt_rx_attach_state mbps latency offload st =
     \<lparr>is_full_reorder_offload = offload,
      ring_size = htt_rx_ring_size mbps,
      size_mask = htt_rx_ring_size mbps - 1,
      fill_level = htt_rx_ring_fill_level mbps latency (htt_rx_ring_size mbps),
      fill_cnt = 0,
      alloc_idx = 0,
      sw_rd_idx = 0,
      refill_debt = 0,
      netbufs_ring = (\<lambda>i. None),
      paddrs_ring = (\<lambda>i. 0),
      hash_table = (if offload then Some htt_rx_hash_init else None),
      pop_fail_cnt = 0,
      refill_retry_timer_starts = 0,
      refill_retry_timer_running = False,
      nbufs = st,
      freed = [],
      mic_errors = [],
      recovery_triggers = 0\<rparr>"

subsection \<open>Buffer lengths\<close>

text \<open>
  Constants the pop routines use but that are defined outside the sources at hand;
  they are parameters of the model: the size of an rx buffer, the size of the rx
  descriptor, the room reserved for it in front of the payload, and the two masks
  applied to the byte \<^verbatim>\<open>fw_desc.u.val\<close>.
\<close>

record htt_rx_consts =
  HTT_RX_BUF_SIZE :: nat
  RX_STD_DESC_SIZE :: nat
  HTT_RX_STD_DESC_RESERVATION :: nat
  FW_RX_DESC_DISCARD_M :: "8 word"
  FW_RX_DESC_ANY_ERR_M :: "8 word"

text \<open>
  Modelled from the spec: the buffer pool interface (\<^verbatim>\<open>qdf_nbuf\<close>) is outside the
  sources at hand. \<^verbatim>\<open>set_length(buffer, n)\<close> sets the visible length,
  \<^verbatim>\<open>pull_head(buffer, n)\<close> advances the data pointer past \<open>n\<close> bytes and
  \<^verbatim>\<open>trim_tail(buffer, n)\<close> removes \<open>n\<close> bytes from the end. A request that does not
  fit the current length (more bytes than the buffer shows, or a negative count)
  leaves the buffer as it is.
\<close>

definition qdf_nbuf_set_pktlen :: "htt_pdev_t \<Rightarrow> nat \<Rightarrow> nat \<Rightarrow> htt_pdev_t" where
  "qdf_nbuf_set_pktlen pdev b n =
     pdev\<lparr>nbufs := (nbufs pdev)(b := (nbufs pdev b)\<lparr>nb_len := n\<rparr>)\<rparr>"

definition qdf_nbuf_pull_head :: "htt_pdev_t \<Rightarrow> nat \<Rightarrow> nat \<Rightarrow> htt_pdev_t" where
  "qdf_nbuf_pull_head pdev b n =
     (if n \<le> nb_len (nbufs pdev b)
      then pdev\<lparr>nbufs := (nbufs pdev)(b := (nbufs pdev b)\<lparr>nb_len := nb_len (nbufs pdev b) - n\<rparr>)\<rparr>
      else pdev)"

definition qdf_nbuf_trim_tail :: "htt_pdev_t \<Rightarrow> nat \<Rightarrow> int \<Rightarrow> htt_pdev_t" where
  "qdf_nbuf_trim_tail pdev b n =
     (if 0 \<le> n \<and> nat n \<le> nb_len (nbufs pdev b)
      then pdev\<lparr>nbufs := (nbufs pdev)(b := (nbufs pdev b)\<lparr>nb_len := nb_len (nbufs pdev b) - nat n\<rparr>)\<rparr>
      else pdev)"

text \<open>
  \<open>is_chain st h bs\<close>: following the \<^verbatim>\<open>next\<close> links in store \<open>st\<close> from pointer \<open>h\<close>
  visits exactly the buffers \<open>bs\<close>, in this order, and then reaches \<^verbatim>\<open>NULL\<close>.
\<close>

fun is_chain :: "(nat \<Rightarrow> qdf_nbuf) \<Rightarrow> qdf_nbuf_t \<Rightarrow> nat list \<Rightarrow> bool" where
  "is_chain st h [] = (h = None)"
| "is_chain st h (b # bs) = (h = Some b \<and> is_chain st (nb_next (st b)) bs)"

subsection \<open>Ordered mode: the chained-buffer loop of htt\_rx\_amsdu\_pop\_ll\<close>

text \<open>
  \<^verbatim>\<open>htt_rx_netbuf_pop\<close>: the buffer at the software read index, which advances and
  wraps; \<^verbatim>\<open>fill_cnt\<close> is decremented.
\<close>

definition htt_rx_netbuf_pop :: "htt_pdev_t \<Rightarrow> qdf_nbuf_t \<times> htt_pdev_t" where
  "htt_rx_netbuf_pop pdev =
     (let idx = sw_rd_idx pdev;
          msdu = netbufs_ring pdev idx
      in (msdu, pdev\<lparr>sw_rd_idx := (idx + 1) AND size_mask pdev,
                      fill_cnt := fill_cnt pdev - 1\<rparr>))"

text \<open>
  The residual length of a chained MSDU is a C \<^verbatim>\<open>int\<close>, here a 32-bit word. On
  the last buffer of the chain the source compares it as \<^verbatim>\<open>unsigned int\<close> with
  \<^verbatim>\<open>HTT_RX_BUF_SIZE - RX_STD_DESC_SIZE\<close> and replaces it by that capacity when
  it is larger (a negative residual is a huge unsigned value); the order \<open><\<close> on
  words is the unsigned one.
\<close>

definition usable_capacity :: "htt_rx_consts \<Rightarrow> 32 word" where
  "usable_capacity c = word_of_nat (HTT_RX_BUF_SIZE c) - word_of_nat (RX_STD_DESC_SIZE c)"

definition clamp_chained_len :: "htt_rx_consts \<Rightarrow> 32 word \<Rightarrow> 32 word" where
  "clamp_chained_len c msdu_len =
     (if usable_capacity c < msdu_len then usable_capacity c else msdu_len)"

text \<open>
  The argument of the final \<^verbatim>\<open>qdf_nbuf_trim_tail\<close>:
  \<^verbatim>\<open>HTT_RX_BUF_SIZE - (RX_STD_DESC_SIZE + msdu_len)\<close> with the clamped length.
\<close>

definition last_chained_trim :: "htt_rx_consts \<Rightarrow> 32 word \<Rightarrow> 32 word" where
  "last_chained_trim c msdu_len =
     word_of_nat (HTT_RX_BUF_SIZE c) -
       (word_of_nat (RX_STD_DESC_SIZE c) + clamp_chained_len c msdu_len)"

text \<open>
  \<^verbatim>\<open>while (msdu_chained--)\<close>: each pass pops the next ring buffer, sets its length
  to the whole buffer, subtracts a buffer size from the residual length and links
  the buffer behind the current one; the pass that brings the count to zero also
  clamps the residual and trims the buffer. The result is the state, the last
  buffer of the chain and the residual length. A \<^verbatim>\<open>NULL\<close> ring slot would be
  dereferenced by \<^verbatim>\<open>qdf_nbuf_set_pktlen\<close>.
\<close>

fun amsdu_pop_ll_chain ::
  "htt_rx_consts \<Rightarrow> htt_pdev_t \<Rightarrow> nat \<Rightarrow> 32 word \<Rightarrow> nat \<Rightarrow>
     fatal + (htt_pdev_t \<times> nat \<times> 32 word)" where
  "amsdu_pop_ll_chain c pdev msdu msdu_len 0 = Inr (pdev, msdu, msdu_len)"
| "amsdu_pop_ll_chain c pdev msdu msdu_len (Suc msdu_chained) =
     (case htt_rx_netbuf_pop pdev of
        (None, pdev1) \<Rightarrow> Inl NULL_NETBUF
      | (Some nxt, pdev1) \<Rightarrow>
          (let pdev2 = qdf_nbuf_set_pktlen pdev1 nxt (HTT_RX_BUF_SIZE c);
               msdu_len1 = msdu_len - word_of_nat (HTT_RX_BUF_SIZE c);
               pdev3 = qdf_nbuf_set_next pdev2 msdu (Some nxt)
           in if msdu_chained = 0
              then (let msdu_len2 = clamp_chained_len c msdu_len1;
                        pdev4 = qdf_nbuf_trim_tail pdev3 nxt (sint (last_chained_trim c msdu_len1))
                    in amsdu_pop_ll_chain c pdev4 nxt msdu_len2 msdu_chained)
              else amsdu_pop_ll_chain c pdev3 nxt msdu_len1 msdu_chained))"

subsection \<open>Address-ordered mode: htt\_rx\_amsdu\_rx\_in\_order\_pop\_ll\<close>

text \<open>
  The in-order paddr indication message, as the fields the routine reads: the
  header's peer id, extended TID, offload and fragment indicators and MSDU count,
  and the per-MSDU records that follow the header (bus address, MSDU length, FW
  descriptor byte), addressed by their position.
\<close>

record htt_rx_in_ord_paddr_ind_msdu =
  msdu_paddr :: qdf_dma_addr_t
  msdu_len :: nat
  msdu_fw_desc :: "8 word"

record htt_rx_in_ord_paddr_ind =
  peer_id :: nat
  ext_tid :: nat
  offload_ind :: bool
  frag_ind :: bool
  msdu_cnt :: nat
  msdus :: "nat \<Rightarrow> htt_rx_in_ord_paddr_ind_msdu"

text \<open>
  Modelled from the spec: \<^verbatim>\<open>htt_rx_in_order_netbuf_pop\<close> is defined outside the
  sources at hand. In address-ordered mode a buffer is popped by hash lookup of
  its address, stripped of marker bits; like the ordered pop it decrements
  \<^verbatim>\<open>fill_cnt\<close>. \<open>recovery\<close> is \<^verbatim>\<open>cds_is_self_recovery_enabled()\<close>.
\<close>

definition htt_rx_in_order_netbuf_pop ::
  "bool \<Rightarrow> htt_pdev_t \<Rightarrow> qdf_dma_addr_t \<Rightarrow> fatal + (qdf_nbuf_t \<times> htt_pdev_t)" where
  "htt_rx_in_order_netbuf_pop recovery pdev pa =
     (case htt_rx_hash_list_lookup (hash_table pdev) recovery (htt_paddr_trim_to_37 pa) of
        Inl f \<Rightarrow> Inl f
      | Inr (nb, ht, triggered) \<Rightarrow>
          Inr (nb, pdev\<lparr>fill_cnt := fill_cnt pdev - 1, hash_table := ht,
                        recovery_triggers :=
                          recovery_triggers pdev + (if triggered then 1 else 0)\<rparr>))"

definition RX_DESC_DISCARD_IS_SET :: "htt_rx_consts \<Rightarrow> htt_host_rx_desc_base \<Rightarrow> bool" where
  "RX_DESC_DISCARD_IS_SET c d \<longleftrightarrow> fw_desc_val d AND FW_RX_DESC_DISCARD_M c \<noteq> 0"

definition RX_DESC_MIC_ERR_IS_SET :: "htt_rx_consts \<Rightarrow> htt_host_rx_desc_base \<Rightarrow> bool" where
  "RX_DESC_MIC_ERR_IS_SET c d \<longleftrightarrow> fw_desc_val d AND FW_RX_DESC_ANY_ERR_M c \<noteq> 0"

text \<open>
  The first part of the loop body, up to \<^verbatim>\<open>msdu_count--\<close>: the length is set to
  the whole buffer, the buffer is unmapped, the data pointer is moved past the
  descriptor reservation, the tail is trimmed by
  \<^verbatim>\<open>HTT_RX_BUF_SIZE - (RX_STD_DESC_SIZE + MSDU_LEN)\<close>, and the message's FW
  descriptor byte is copied into the rx descriptor.
\<close>

definition in_order_prepare ::
  "htt_rx_consts \<Rightarrow> htt_pdev_t \<Rightarrow> nat \<Rightarrow> htt_rx_in_ord_paddr_ind_msdu \<Rightarrow> htt_pdev_t" where
  "in_order_prepare c pdev msdu r =
     (let pdev1 = qdf_nbuf_set_pktlen pdev msdu (HTT_RX_BUF_SIZE c);
          pdev2 = qdf_nbuf_unmap pdev1 msdu;
          pdev3 = qdf_nbuf_pull_head pdev2 msdu (HTT_RX_STD_DESC_RESERVATION c);
          pdev4 = qdf_nbuf_trim_tail pdev3 msdu
                    (int (HTT_RX_BUF_SIZE c) - (int (RX_STD_DESC_SIZE c) + int (msdu_len r)))
      in pdev4\<lparr>nbufs := (nbufs pdev4)(msdu := (nbufs pdev4 msdu)\<lparr>rx_desc :=
                  (rx_desc (nbufs pdev4 msdu))\<lparr>fw_desc_val := msdu_fw_desc r\<rparr>\<rparr>)\<rparr>)"

definition ol_rx_mic_error_handler :: "htt_pdev_t \<Rightarrow> nat \<Rightarrow> htt_pdev_t" where
  "ol_rx_mic_error_handler pdev msdu = pdev\<lparr>mic_errors := mic_errors pdev @ [msdu]\<rparr>"

definition pop_failed :: "htt_pdev_t \<Rightarrow> htt_pdev_t" where
  "pop_failed pdev = pdev\<lparr>pop_fail_cnt := pop_fail_cnt pdev + 1\<rparr>"

text \<open>
  \<^verbatim>\<open>while (msdu_count > 0)\<close>, with the locals: the count before this pass, the
  position \<open>j\<close> of the current record (\<^verbatim>\<open>msg_word\<close>), the current buffer \<open>msdu\<close>,
  \<open>prev\<close>, and the out-parameters \<open>head\<close> and \<open>tail\<close>. The result is the return
  value (1 success, 0 failure), \<^verbatim>\<open>*head_msdu\<close>, \<^verbatim>\<open>*tail_msdu\<close> and the state.
\<close>

fun in_order_loop ::
  "htt_rx_consts \<Rightarrow> bool \<Rightarrow> htt_rx_in_ord_paddr_ind \<Rightarrow> nat \<Rightarrow> nat \<Rightarrow> nat \<Rightarrow>
     qdf_nbuf_t \<Rightarrow> qdf_nbuf_t \<Rightarrow> qdf_nbuf_t \<Rightarrow> htt_pdev_t \<Rightarrow>
     fatal + (int \<times> qdf_nbuf_t \<times> qdf_nbuf_t \<times> htt_pdev_t)" where
  "in_order_loop c recovery msg 0 j msdu prev head tail pdev = Inr (1, head, tail, pdev)"
| "in_order_loop c recovery msg (Suc msdu_count) j msdu prev head tail pdev =
     (let pdev1 = in_order_prepare c pdev msdu (msdus msg j);
          d = rx_desc (nbufs pdev1 msdu)
      in if RX_DESC_MIC_ERR_IS_SET c d \<and> \<not> RX_DESC_DISCARD_IS_SET c d
         then (let pdev2 = qdf_nbuf_free (ol_rx_mic_error_handler pdev1 msdu) msdu
               in if msdu_count = 0
                  then (case prev of
                          None \<Rightarrow> Inr (0, None, None, pdev2)
                        | Some p \<Rightarrow> Inr (1, head, Some p, qdf_nbuf_set_next pdev2 p None))
                  else (case htt_rx_in_order_netbuf_pop recovery pdev2
                               (msdu_paddr (msdus msg (Suc j))) of
                          Inl f \<Rightarrow> Inl f
                        | Inr (None, pdev3) \<Rightarrow> Inr (0, head, None, pop_failed pdev3)
                        | Inr (Some nxt, pdev3) \<Rightarrow>
                            (case prev of
                               Some p \<Rightarrow>
                                 in_order_loop c recovery msg msdu_count (Suc j) nxt prev head tail
                                   (qdf_nbuf_set_next pdev3 p (Some nxt))
                             | None \<Rightarrow>
                                 in_order_loop c recovery msg msdu_count (Suc j) nxt prev
                                   (Some nxt) tail pdev3)))
         else if msdu_count \<noteq> 0
         then (case htt_rx_in_order_netbuf_pop recovery pdev1
                      (msdu_paddr (msdus msg (Suc j))) of
                 Inl f \<Rightarrow> Inl f
               | Inr (None, pdev3) \<Rightarrow> Inr (0, head, None, pop_failed pdev3)
               | Inr (Some nxt, pdev3) \<Rightarrow>
                   in_order_loop c recovery msg msdu_count (Suc j) nxt (Some msdu) head tail
                     (qdf_nbuf_set_next pdev3 msdu (Some nxt)))
         else Inr (1, head, Some msdu, qdf_nbuf_set_next pdev1 msdu None))"

text \<open>
  \<^verbatim>\<open>htt_rx_amsdu_rx_in_order_pop_ll\<close>. \<open>head\<close> and \<open>tail\<close> are the values the caller's
  \<^verbatim>\<open>*head_msdu\<close> and \<^verbatim>\<open>*tail_msdu\<close> hold on entry. Modelled from the spec:
  \<^verbatim>\<open>HTT_RX_CHECK_MSDU_COUNT\<close> is defined outside the sources at hand; a count
  outside the sane bound rejects the message, here an assertion that the count
  is not zero. An offload indication is handed to
  \<^verbatim>\<open>ol_rx_offload_paddr_deliver_ind_handler\<close>, which is outside this model.
\<close>

definition htt_rx_amsdu_rx_in_order_pop_ll ::
  "htt_rx_consts \<Rightarrow> bool \<Rightarrow> htt_pdev_t \<Rightarrow> htt_rx_in_ord_paddr_ind \<Rightarrow> qdf_nbuf_t \<Rightarrow> qdf_nbuf_t \<Rightarrow>
     fatal + (int \<times> qdf_nbuf_t \<times> qdf_nbuf_t \<times> htt_pdev_t)" where
  "htt_rx_amsdu_rx_in_order_pop_ll c recovery pdev msg head tail =
     (if msdu_cnt msg = 0 then Inl ASSERT_ALWAYS_FAILED
      else if offload_ind msg then Inr (0, None, None, pdev)
      else (case htt_rx_in_order_netbuf_pop recovery pdev (msdu_paddr (msdus msg 0)) of
              Inl f \<Rightarrow> Inl f
            | Inr (None, pdev1) \<Rightarrow> Inr (0, None, None, pop_failed pdev1)
            | Inr (Some msdu, pdev1) \<Rightarrow>
                in_order_loop c recovery msg (msdu_cnt msg) 0 msdu None (Some msdu) tail pdev1))"

subsection \<open>Sequences of table operations\<close>

text \<open>
  The statements about "any sequence of inserts, then lookups" run the two table
  functions over lists: \<open>insert_all\<close> performs the inserts in order (stopping at an
  abort), \<open>lookup_all\<close> performs the lookups in order and collects the buffers
  returned and whether recovery was ever triggered.
\<close>

fun insert_all ::
  "bool \<Rightarrow> htt_hash_table \<Rightarrow> (qdf_dma_addr_t \<times> qdf_nbuf_t) list \<Rightarrow> fatal + htt_hash_table" where
  "insert_all malloc_ok tbl [] = Inr tbl"
| "insert_all malloc_ok tbl ((pa, nb) # rest) =
     (case htt_rx_hash_list_insert tbl malloc_ok pa nb of
        Inl f \<Rightarrow> Inl f
      | Inr (rc, tbl') \<Rightarrow> insert_all malloc_ok tbl' rest)"

fun lookup_all ::
  "htt_hash_table option \<Rightarrow> bool \<Rightarrow> qdf_dma_addr_t list \<Rightarrow>
     fatal + (qdf_nbuf_t list \<times> htt_hash_table option \<times> bool)" where
  "lookup_all ht recovery [] = Inr ([], ht, False)"
| "lookup_all ht recovery (a # as) =
     (case htt_rx_hash_list_lookup ht recovery a of
        Inl f \<Rightarrow> Inl f
      | Inr (nb, ht', trig) \<Rightarrow>
          (case lookup_all ht' recovery as of
             Inl f \<Rightarrow> Inl f
           | Inr (nbs, ht'', trig') \<Rightarrow> Inr (nb # nbs, ht'', trig \<or> trig')))"

text \<open>
  \<open>tbl_holds t m\<close>: the active lists of \<open>t\<close> hold exactly the bindings of \<open>m\<close>,
  each once and in the bucket its address hashes to.
\<close>

definition tbl_holds :: "htt_hash_table \<Rightarrow> (qdf_dma_addr_t \<rightharpoonup> qdf_nbuf_t) \<Rightarrow> bool" where
  "tbl_holds t m \<longleftrightarrow>
     (\<forall>i. distinct (map paddr (listhead (t i))) \<and>
          (\<forall>e \<in> set (listhead (t i)). m (paddr e) = Some (netbuf e) \<and> RX_HASH_FUNCTION (paddr e) = i)) \<and>
     (\<forall>a b. m a = Some b \<longrightarrow> hash_list_peek t a \<noteq> None)"

subsection \<open>Concrete inputs\<close>

text \<open>
  Inputs for evaluating the model: collaborators that never fail (iteration \<open>k\<close>
  obtains buffer \<open>k\<close>, mapped at bus address \<open>2048 * k\<close>), a store of blank
  buffers, and the \<^verbatim>\<open>fill_cnt\<close> a fill call leaves behind.
\<close>

definition every_attempt_mapped :: "nat \<Rightarrow> fill_attempt" where
  "every_attempt_mapped k = MAPPED k (push_bit 11 (word_of_nat k)) True"

definition blank_store :: "nat \<Rightarrow> qdf_nbuf" where
  "blank_store h =
     \<lparr>nb_len = 0, nb_next = None, nb_mapped = False,
      rx_desc = \<lparr>attention_msdu_done = False, attention_mpdu_length_err = False,
                 frag_info_ring2_more_count = 0, msdu_start_msdu_length = 0,
                 msdu_end_last_msdu = False, fw_desc_val = 0\<rparr>\<rparr>"


subsection \<open>Auxiliary notions and inputs for the pop routines\<close>

text \<open>
  Auxiliary notions for the statements about the address-ordered routine:
  whether the loop drops a record's buffer (error flag set, discard flag clear),
  the length \<^verbatim>\<open>in_order_prepare\<close> leaves a buffer with, and the stripped address
  of the \<open>i\<close>-th record.
\<close>

definition msdu_dropped :: "htt_rx_consts \<Rightarrow> htt_rx_in_ord_paddr_ind_msdu \<Rightarrow> bool" where
  "msdu_dropped c r \<longleftrightarrow>
     msdu_fw_desc r AND FW_RX_DESC_ANY_ERR_M c \<noteq> 0 \<and> \<not> msdu_fw_desc r AND FW_RX_DESC_DISCARD_M c \<noteq> 0"

definition in_order_len :: "htt_rx_consts \<Rightarrow> htt_rx_in_ord_paddr_ind_msdu \<Rightarrow> nat" where
  "in_order_len c r =
     (let l1 = (if HTT_RX_STD_DESC_RESERVATION c \<le> HTT_RX_BUF_SIZE c
                then HTT_RX_BUF_SIZE c - HTT_RX_STD_DESC_RESERVATION c else HTT_RX_BUF_SIZE c);
          t = int (HTT_RX_BUF_SIZE c) - (int (RX_STD_DESC_SIZE c) + int (msdu_len r))
      in if 0 \<le> t \<and> nat t \<le> l1 then l1 - nat t else l1)"

definition posted_addr :: "htt_rx_in_ord_paddr_ind \<Rightarrow> nat \<Rightarrow> qdf_dma_addr_t" where
  "posted_addr msg i = htt_paddr_trim_to_37 (msdu_paddr (msdus msg i))"

text \<open>
  What a run of the loop over the records \<open>j, \<dots>, j + k - 1\<close> with buffers
  \<open>bs j, \<dots>\<close> leaves behind, when every pop succeeds.
\<close>

definition loop_post ::
  "htt_rx_consts \<Rightarrow> htt_rx_in_ord_paddr_ind \<Rightarrow> (nat \<Rightarrow> nat) \<Rightarrow> nat \<Rightarrow> nat \<Rightarrow> qdf_nbuf_t \<Rightarrow>
     qdf_nbuf_t \<Rightarrow> htt_pdev_t \<Rightarrow> int \<Rightarrow> qdf_nbuf_t \<Rightarrow> qdf_nbuf_t \<Rightarrow> htt_pdev_t \<Rightarrow> bool" where
  "loop_post c msg bs j k prev head pdev ret head' tail' pdev' \<longleftrightarrow>
     (let G = map bs (filter (\<lambda>i. \<not> msdu_dropped c (msdus msg i)) [j..<j + k]);
          D = map bs (filter (\<lambda>i. msdu_dropped c (msdus msg i)) [j..<j + k])
      in ret = (if G = [] \<and> prev = None then 0 else 1) \<and>
         head' = (case prev of None \<Rightarrow> (if G = [] then None else Some (hd G)) | Some p \<Rightarrow> head) \<and>
         tail' = (if G = [] then prev else Some (last G)) \<and>
         is_chain (nbufs pdev') (case prev of None \<Rightarrow> head' | Some p \<Rightarrow> nb_next (nbufs pdev' p)) G \<and>
         (\<forall>i. j \<le> i \<and> i < j + k \<longrightarrow> nb_len (nbufs pdev' (bs i)) = in_order_len c (msdus msg i)) \<and>
         (\<forall>x. (\<forall>i. j \<le> i \<and> i < j + k \<longrightarrow> bs i \<noteq> x) \<longrightarrow>
              nb_len (nbufs pdev' x) = nb_len (nbufs pdev x) \<and>
              (prev \<noteq> Some x \<longrightarrow> nb_next (nbufs pdev' x) = nb_next (nbufs pdev x))) \<and>
         mic_errors pdev' = mic_errors pdev @ D \<and> freed pdev' = freed pdev @ D)"

text \<open>
  Inputs for the pop routines: values for the constants, a message of three
  records (the second carries the given FW descriptor byte and a marked
  address), the buffers posted for it, a store whose buffers carry a stale
  \<^verbatim>\<open>next\<close> link, a device state over a given hash table, and a device state whose
  ring slot \<open>i\<close> holds buffer \<open>i + 1\<close>.
\<close>

definition example_consts :: htt_rx_consts where
  "example_consts =
     \<lparr>HTT_RX_BUF_SIZE = 1920, RX_STD_DESC_SIZE = 248, HTT_RX_STD_DESC_RESERVATION = 248,
      FW_RX_DESC_DISCARD_M = 1, FW_RX_DESC_ANY_ERR_M = 4\<rparr>"

fun example_paddr :: "nat \<Rightarrow> qdf_dma_addr_t" where
  "example_paddr 0 = 0x1000"
| "example_paddr (Suc 0) = 0x2000002000"
| "example_paddr (Suc (Suc i)) = 0x3000"

definition example_msg :: "8 word \<Rightarrow> htt_rx_in_ord_paddr_ind" where
  "example_msg fw =
     \<lparr>peer_id = 1, ext_tid = 0, offload_ind = False, frag_ind = False, msdu_cnt = 3,
      msdus = (\<lambda>i. \<lparr>msdu_paddr = example_paddr i, msdu_len = 100 * Suc i,
                     msdu_fw_desc = (if i = 1 then fw else 0)\<rparr>)\<rparr>"

definition example_posted :: "(qdf_dma_addr_t \<times> qdf_nbuf_t) list" where
  "example_posted = [(0x1000, Some 10), (0x2000002000, Some 11), (0x3000, Some 12)]"

definition stale_store :: "nat \<Rightarrow> qdf_nbuf" where
  "stale_store h = (blank_store h)\<lparr>nb_next := Some 99\<rparr>"

definition example_pdev :: "htt_hash_table \<Rightarrow> htt_pdev_t" where
  "example_pdev t = (htt_rx_attach_state 40 20 True stale_store)\<lparr>hash_table := Some t\<rparr>"

definition example_ring_pdev :: htt_pdev_t where
  "example_ring_pdev =
     (htt_rx_attach_state 40 20 False blank_store)\<lparr>netbufs_ring := (\<lambda>i. Some (nat i + 1))\<rparr>"

subsection \<open>Auxiliary notions for the ring fill\<close>











section \<open>Verified properties\<close>

subsection \<open>Fill level of the concrete scenario\<close>

lemma pwr2_from_2500: "pwr2_from 1 2500 = 4096"
  by simp

lemma raw_fill_level_1gbps: "raw_fill_level 1000 20 = 2500"
  by (simp add: raw_fill_level_def HTT_RX_AVG_FRM_BYTES_def)

lemma fill_level_1gbps_128: "htt_rx_ring_fill_level 1000 20 128 = 127"
  by (simp add: htt_rx_ring_fill_level_def qdf_get_pwr2_def raw_fill_level_1gbps
      pwr2_from_2500)

lemma not_pwr2_127: "\<not> is_pwr2 127"
proof
  assume "is_pwr2 127"
  then obtain k :: nat where k: "(127::int) = 2 ^ k"
    unfolding is_pwr2_def by blast
  show False
  proof (cases k)
    case 0
    with k show False by simp
  next
    case (Suc j)
    with k have "(127::int) = 2 * 2 ^ j" by simp
    then show False by presburger
  qed
qed

text \<open>
  Claim C7 as stated fails in its scenario (1 Gbps, 1000-byte frames, 20 ms, ring
  size 128): the fill level computed there is not a power of two, so the
  conjunction "power of two, at least 128 if the raw value undershoots, at most
  size - 1" is false.
\<close>

theorem fill_level_scenario_counterexample:
  "\<not> (is_pwr2 (htt_rx_ring_fill_level 1000 20 128) \<and>
       (raw_fill_level 1000 20 < HTT_RX_RING_SIZE_MIN \<longrightarrow>
          HTT_RX_RING_SIZE_MIN \<le> htt_rx_ring_fill_level 1000 20 128) \<and>
       htt_rx_ring_fill_level 1000 20 128 \<le> 128 - 1)"
  by (simp add: fill_level_1gbps_128 not_pwr2_127)

text \<open>
  Claim C7, amended. In the scenario the fill level is 127. It is at most
  size - 1. The raw throughput-latency value is 2500, which is not below
  \<^verbatim>\<open>HTT_RX_RING_SIZE_MIN\<close> = 128: the formula does not undershoot, so the lower
  bound for an undershooting formula is not called upon. The fill level is not a
  power of two: the raw value is rounded up to the power of two 4096, which is
  not below the ring size, and is therefore clamped to size - 1.
\<close>

theorem fill_level_scenario:
  "htt_rx_ring_fill_level 1000 20 128 = 127 \<and>
   htt_rx_ring_fill_level 1000 20 128 \<le> 128 - 1 \<and>
   raw_fill_level 1000 20 = 2500 \<and>
   HTT_RX_RING_SIZE_MIN = 128 \<and> HTT_RX_RING_SIZE_MIN \<le> raw_fill_level 1000 20 \<and>
   \<not> is_pwr2 (htt_rx_ring_fill_level 1000 20 128) \<and>
   qdf_get_pwr2 (raw_fill_level 1000 20) = 4096 \<and>
   is_pwr2 (qdf_get_pwr2 (raw_fill_level 1000 20)) \<and>
   128 \<le> qdf_get_pwr2 (raw_fill_level 1000 20)"
proof -
  have p: "qdf_get_pwr2 (raw_fill_level 1000 20) = 4096"
    by (simp add: raw_fill_level_1gbps qdf_get_pwr2_def pwr2_from_2500)
  have "(4096::int) = 2 ^ 12" by simp
  then have "is_pwr2 4096" unfolding is_pwr2_def by (rule exI)
  with p show ?thesis
    by (simp add: fill_level_1gbps_128 not_pwr2_127 raw_fill_level_1gbps
        HTT_RX_RING_SIZE_MIN_def)
qed

subsection \<open>Hash table: lookups return what was inserted\<close>

lemma hash_list_iter_None: "hash_list_iter es a = None \<longleftrightarrow> (\<forall>x \<in> set es. paddr x \<noteq> a)"
  by (induction es) (auto split: option.splits)

lemma hash_list_iter_Some:
  "hash_list_iter es a = Some (e, rest) \<Longrightarrow>
     \<exists>xs ys. es = xs @ e # ys \<and> rest = xs @ ys \<and> paddr e = a \<and> (\<forall>x \<in> set xs. paddr x \<noteq> a)"
proof (induction es arbitrary: rest)
  case Nil
  then show ?case by simp
next
  case (Cons x es)
  show ?case
  proof (cases "paddr x = a")
    case True
    with Cons.prems have "e = x" "rest = es" by auto
    with True show ?thesis by (intro exI[of _ "[]"] exI[of _ es]) simp
  next
    case False
    with Cons.prems obtain r where r: "hash_list_iter es a = Some (e, r)" "rest = x # r"
      by (auto split: option.splits)
    from Cons.IH[OF r(1)] obtain xs ys where
      "es = xs @ e # ys" "r = xs @ ys" "paddr e = a" "(\<forall>x \<in> set xs. paddr x \<noteq> a)" by blast
    with False r(2) show ?thesis
      by (intro exI[of _ "x # xs"] exI[of _ ys]) auto
  qed
qed

lemma find_append_notin:
  "(\<forall>x \<in> set xs. paddr x \<noteq> a) \<Longrightarrow> find (\<lambda>e. paddr e = a) (xs @ ys) = find (\<lambda>e. paddr e = a) ys"
  by (induction xs) auto

lemma find_skip_other:
  "a' \<noteq> paddr e \<Longrightarrow> find (\<lambda>x. paddr x = a') (xs @ e # ys) = find (\<lambda>x. paddr x = a') (xs @ ys)"
  by (induction xs) auto

lemma find_paddr_SomeD:
  "find (\<lambda>x. paddr x = a) es = Some e \<Longrightarrow> e \<in> set es \<and> paddr e = a"
  by (induction es) (auto split: if_splits)

lemma insert_result:
  assumes "htt_rx_hash_list_insert tbl ok pa nb = Inr (rc, tbl')"
  shows "rc = 0 \<and> (\<exists>e. paddr e = htt_paddr_trim_to_37 pa \<and> netbuf e = nb \<and>
           (\<forall>i. listhead (tbl' i) = listhead (tbl i) @
                  (if i = RX_HASH_FUNCTION (htt_paddr_trim_to_37 pa) then [e] else [])))"
  using assms
  by (auto simp: htt_rx_hash_list_insert_def Let_def split: list.splits if_splits)

lemma insert_malloc_ok:
  "\<exists>tbl'. htt_rx_hash_list_insert tbl True pa nb = Inr (0, tbl')"
  by (auto simp: htt_rx_hash_list_insert_def Let_def split: list.splits)

lemma lookup_hit:
  assumes "hash_list_peek tbl a = Some e" and "netbuf e \<noteq> None"
  shows "\<exists>tbl' xs ys. htt_rx_hash_list_lookup (Some tbl) rec a = Inr (netbuf e, Some tbl', False) \<and>
           listhead (tbl (RX_HASH_FUNCTION a)) = xs @ e # ys \<and> (\<forall>x \<in> set xs. paddr x \<noteq> a) \<and> paddr e = a \<and>
           (\<forall>i. listhead (tbl' i) = (if i = RX_HASH_FUNCTION a then xs @ ys else listhead (tbl i)))"
proof -
  let ?es = "listhead (tbl (RX_HASH_FUNCTION a))"
  from assms(1) have f: "find (\<lambda>x. paddr x = a) ?es = Some e"
    by (simp add: hash_list_peek_def)
  then have "\<not> (\<forall>x \<in> set ?es. paddr x \<noteq> a)"
    using find_paddr_SomeD[of a ?es e] by blast
  then obtain e' rest where it: "hash_list_iter ?es a = Some (e', rest)"
    using hash_list_iter_None[of ?es a] by (cases "hash_list_iter ?es a") auto
  from hash_list_iter_Some[OF it] obtain xs ys where
    d: "?es = xs @ e' # ys" "rest = xs @ ys" "paddr e' = a" "(\<forall>x \<in> set xs. paddr x \<noteq> a)" by blast
  from f d have "e' = e" by (simp add: find_append_notin)
  with it d assms(2) show ?thesis
    by (auto simp: htt_rx_hash_list_lookup_def Let_def)
qed

lemma lookup_miss:
  assumes "hash_list_peek tbl a = None"
  shows "htt_rx_hash_list_lookup (Some tbl) rec a =
           (if rec then Inr (None, Some tbl, True) else Inl ASSERT_ALWAYS_FAILED)"
proof -
  from assms have "\<forall>x \<in> set (listhead (tbl (RX_HASH_FUNCTION a))). paddr x \<noteq> a"
    by (auto simp: hash_list_peek_def find_None_iff)
  then have "hash_list_iter (listhead (tbl (RX_HASH_FUNCTION a))) a = None"
    by (simp add: hash_list_iter_None)
  then show ?thesis
    by (simp add: htt_rx_hash_list_lookup_def Let_def)
qed

lemma tbl_holds_empty: "\<forall>i. listhead (t i) = [] \<Longrightarrow> tbl_holds t Map.empty"
  by (simp add: tbl_holds_def)

lemma tbl_holds_no_entries:
  assumes "tbl_holds t m" and "dom m = {}"
  shows "listhead (t i) = []"
proof (cases "listhead (t i)")
  case Nil
  then show ?thesis .
next
  case (Cons e es)
  then have "e \<in> set (listhead (t i))" by simp
  with assms(1) have "m (paddr e) = Some (netbuf e)"
    unfolding tbl_holds_def by blast
  with assms(2) show ?thesis by auto
qed

lemma find_append_Some:
  "find P xs = Some e \<Longrightarrow> find P (xs @ ys) = Some e"
  by (induction xs) auto

lemma tbl_holds_insert:
  assumes inv: "tbl_holds t m"
    and fresh: "m (htt_paddr_trim_to_37 pa) = None"
    and ins: "htt_rx_hash_list_insert t ok pa nb = Inr (rc, t')"
  shows "tbl_holds t' (m(htt_paddr_trim_to_37 pa \<mapsto> nb))"
proof -
  let ?a = "htt_paddr_trim_to_37 pa"
  let ?m = "m(?a \<mapsto> nb)"
  from insert_result[OF ins] obtain e where
    e: "paddr e = ?a" "netbuf e = nb"
    and lh: "\<And>i. listhead (t' i) = listhead (t i) @ (if i = RX_HASH_FUNCTION ?a then [e] else [])"
    by blast
  have old: "\<And>i x. x \<in> set (listhead (t i)) \<Longrightarrow>
      m (paddr x) = Some (netbuf x) \<and> RX_HASH_FUNCTION (paddr x) = i"
    using inv unfolding tbl_holds_def by blast
  have old_ne: "\<And>i x. x \<in> set (listhead (t i)) \<Longrightarrow> paddr x \<noteq> ?a"
    using old fresh by fastforce
  have dist: "\<And>i. distinct (map paddr (listhead (t i)))"
    using inv unfolding tbl_holds_def by blast
  have e_new: "\<And>i. paddr e \<notin> set (map paddr (listhead (t i)))"
  proof
    fix i assume "paddr e \<in> set (map paddr (listhead (t i)))"
    then obtain x where "x \<in> set (listhead (t i))" "paddr x = paddr e" by auto
    with old_ne[of x i] e show False by simp
  qed
  have d': "\<And>i. distinct (map paddr (listhead (t' i)))"
    using dist e_new by (simp add: lh)
  have s': "?m (paddr x) = Some (netbuf x) \<and> RX_HASH_FUNCTION (paddr x) = i"
    if "x \<in> set (listhead (t' i))" for i x
  proof (cases "x \<in> set (listhead (t i))")
    case True
    with old[OF True] old_ne[OF True] show ?thesis by simp
  next
    case False
    with that have "x = e" "i = RX_HASH_FUNCTION ?a"
      by (auto simp: lh split: if_splits)
    with e show ?thesis by simp
  qed
  have c': "hash_list_peek t' a \<noteq> None" if "?m a = Some b" for a b
  proof (cases "a = ?a")
    case True
    have "\<forall>x \<in> set (listhead (t (RX_HASH_FUNCTION ?a))). paddr x \<noteq> ?a"
      using old_ne by blast
    then have "find (\<lambda>x. paddr x = ?a) (listhead (t (RX_HASH_FUNCTION ?a)) @ [e]) = Some e"
      using e by (simp add: find_append_notin)
    with True show ?thesis by (simp add: hash_list_peek_def lh)
  next
    case False
    with that have "m a = Some b" by simp
    with inv have "hash_list_peek t a \<noteq> None" unfolding tbl_holds_def by blast
    then obtain x where "find (\<lambda>x. paddr x = a) (listhead (t (RX_HASH_FUNCTION a))) = Some x"
      by (auto simp: hash_list_peek_def)
    then show ?thesis
      by (simp add: hash_list_peek_def lh find_append_Some)
  qed
  show ?thesis
    unfolding tbl_holds_def using d' s' c' by blast
qed

lemma tbl_holds_lookup:
  assumes inv: "tbl_holds t m" and ma: "m a = Some nb" and nn: "nb \<noteq> None"
  shows "\<exists>t'. htt_rx_hash_list_lookup (Some t) rec a = Inr (nb, Some t', False) \<and>
              tbl_holds t' (m(a := None))"
proof -
  from inv ma obtain e where pk: "hash_list_peek t a = Some e"
    unfolding tbl_holds_def by blast
  then have e_in: "e \<in> set (listhead (t (RX_HASH_FUNCTION a)))" and pe: "paddr e = a"
    using find_paddr_SomeD by (auto simp: hash_list_peek_def)
  have old: "\<And>i x. x \<in> set (listhead (t i)) \<Longrightarrow>
      m (paddr x) = Some (netbuf x) \<and> RX_HASH_FUNCTION (paddr x) = i"
    using inv unfolding tbl_holds_def by blast
  from old[OF e_in] pe ma have ne: "netbuf e = nb" by simp
  have dist: "\<And>i. distinct (map paddr (listhead (t i)))"
    using inv unfolding tbl_holds_def by blast
  from lookup_hit[OF pk, of rec] ne nn obtain t' xs ys where
    lk: "htt_rx_hash_list_lookup (Some t) rec a = Inr (nb, Some t', False)"
    and sp: "listhead (t (RX_HASH_FUNCTION a)) = xs @ e # ys"
    and lh: "\<And>i. listhead (t' i) = (if i = RX_HASH_FUNCTION a then xs @ ys else listhead (t i))"
    by auto
  have sub: "\<And>i. set (listhead (t' i)) \<subseteq> set (listhead (t i))"
    using sp by (auto simp: lh)
  have d': "\<And>i. distinct (map paddr (listhead (t' i)))"
    using dist[of "RX_HASH_FUNCTION a"] dist sp by (auto simp: lh)
  have gone: "paddr x \<noteq> a" if "x \<in> set (listhead (t' i))" for i x
  proof (cases "i = RX_HASH_FUNCTION a")
    case True
    with that have "x \<in> set (xs @ ys)" by (simp add: lh)
    moreover from dist[of "RX_HASH_FUNCTION a"] sp
    have "\<forall>z \<in> set (xs @ ys). paddr z \<noteq> paddr e" by (auto simp: image_iff)
    ultimately show ?thesis using pe by auto
  next
    case False
    from that sub have "x \<in> set (listhead (t i))" by blast
    with old have "RX_HASH_FUNCTION (paddr x) = i" by blast
    with False show ?thesis by auto
  qed
  have s': "(m(a := None)) (paddr x) = Some (netbuf x) \<and> RX_HASH_FUNCTION (paddr x) = i"
    if "x \<in> set (listhead (t' i))" for i x
  proof -
    from sub that have "x \<in> set (listhead (t i))" by blast
    from old[OF this] gone[OF that] show ?thesis by simp
  qed
  have c': "hash_list_peek t' a' \<noteq> None" if "(m(a := None)) a' = Some b" for a' b
  proof -
    from that have neq: "a' \<noteq> a" and "m a' = Some b" by (auto split: if_splits)
    with inv have pk': "hash_list_peek t a' \<noteq> None" unfolding tbl_holds_def by blast
    show ?thesis
    proof (cases "RX_HASH_FUNCTION a' = RX_HASH_FUNCTION a")
      case True
      with pk' sp have "find (\<lambda>x. paddr x = a') (xs @ e # ys) \<noteq> None"
        by (simp add: hash_list_peek_def)
      with neq pe have "find (\<lambda>x. paddr x = a') (xs @ ys) \<noteq> None"
        by (simp add: find_skip_other)
      with True show ?thesis by (simp add: hash_list_peek_def lh)
    next
      case False
      with pk' show ?thesis by (simp add: hash_list_peek_def lh)
    qed
  qed
  have "tbl_holds t' (m(a := None))"
    unfolding tbl_holds_def using d' s' c' by blast
  with lk show ?thesis by blast
qed

lemma insert_all_holds:
  assumes "tbl_holds t m"
    and "distinct (map (htt_paddr_trim_to_37 \<circ> fst) ins)"
    and "\<forall>x \<in> set ins. m (htt_paddr_trim_to_37 (fst x)) = None"
    and "insert_all ok t ins = Inr t1"
  shows "tbl_holds t1 (m ++ map_of (map (\<lambda>x. (htt_paddr_trim_to_37 (fst x), snd x)) ins))"
  using assms
proof (induction ins arbitrary: t m)
  case Nil
  then show ?case by simp
next
  case (Cons x ins)
  obtain pa nb where x: "x = (pa, nb)" by (cases x)
  let ?a = "htt_paddr_trim_to_37 pa"
  from Cons.prems(4) x obtain rc t' where
    i1: "htt_rx_hash_list_insert t ok pa nb = Inr (rc, t')" and
    i2: "insert_all ok t' ins = Inr t1"
    by (auto split: sum.splits)
  from Cons.prems(3) x have fresh: "m ?a = None" by simp
  have h': "tbl_holds t' (m(?a \<mapsto> nb))"
    by (rule tbl_holds_insert[OF Cons.prems(1) fresh i1])
  from Cons.prems(2) x have d: "distinct (map (htt_paddr_trim_to_37 \<circ> fst) ins)"
    and nin: "\<forall>z \<in> set ins. htt_paddr_trim_to_37 (fst z) \<noteq> ?a"
    by (auto simp: comp_def image_iff)
  have fr: "\<forall>y \<in> set ins. (m(?a \<mapsto> nb)) (htt_paddr_trim_to_37 (fst y)) = None"
  proof
    fix y assume y: "y \<in> set ins"
    with nin have "htt_paddr_trim_to_37 (fst y) \<noteq> ?a" by auto
    with Cons.prems(3) y show "(m(?a \<mapsto> nb)) (htt_paddr_trim_to_37 (fst y)) = None" by simp
  qed
  let ?kv = "map (\<lambda>x. (htt_paddr_trim_to_37 (fst x), snd x)) ins"
  from Cons.IH[OF h' d fr i2] have ih: "tbl_holds t1 (m(?a \<mapsto> nb) ++ map_of ?kv)" .
  have "?a \<notin> dom (map_of ?kv)"
    using nin by (auto simp: dom_map_of_conv_image_fst image_iff)
  then have e1: "m(?a \<mapsto> nb) ++ map_of ?kv = (m ++ map_of ?kv)(?a \<mapsto> nb)"
    by (rule map_add_upd_left)
  have "map_of (map (\<lambda>x. (htt_paddr_trim_to_37 (fst x), snd x)) (x # ins)) = (map_of ?kv)(?a \<mapsto> nb)"
    using x by simp
  then have "m ++ map_of (map (\<lambda>x. (htt_paddr_trim_to_37 (fst x), snd x)) (x # ins)) =
      (m ++ map_of ?kv)(?a \<mapsto> nb)"
    by (simp only: map_add_upd)
  with e1 ih show ?case by (simp only:)
qed

lemma lookup_all_holds:
  assumes "tbl_holds t m" and "distinct as"
    and "\<forall>a \<in> set as. \<exists>nb. m a = Some nb \<and> nb \<noteq> None"
  shows "\<exists>t2. lookup_all (Some t) rec as = Inr (map (the \<circ> m) as, Some t2, False) \<and>
              tbl_holds t2 (m |` (- set as))"
  using assms
proof (induction as arbitrary: t m)
  case Nil
  then show ?case by simp
next
  case (Cons a as)
  from Cons.prems(3) obtain nb where ma: "m a = Some nb" "nb \<noteq> None" by auto
  from tbl_holds_lookup[OF Cons.prems(1) ma, of rec] obtain t' where
    lk: "htt_rx_hash_list_lookup (Some t) rec a = Inr (nb, Some t', False)" and
    h': "tbl_holds t' (m(a := None))" by blast
  from Cons.prems(2) have d: "distinct as" and nin: "a \<notin> set as" by auto
  have ex: "\<forall>a' \<in> set as. \<exists>nb. (m(a := None)) a' = Some nb \<and> nb \<noteq> None"
    using Cons.prems(3) nin by auto
  from Cons.IH[OF h' d ex] obtain t2 where
    la: "lookup_all (Some t') rec as = Inr (map (the \<circ> (m(a := None))) as, Some t2, False)" and
    h2: "tbl_holds t2 ((m(a := None)) |` (- set as))" by blast
  have "map (the \<circ> (m(a := None))) as = map (the \<circ> m) as"
    using nin by (intro map_cong) auto
  moreover have "(m(a := None)) |` (- set as) = m |` (- set (a # as))"
    by (rule ext) (simp add: restrict_map_def)
  ultimately show ?case using lk la h2 ma by auto
qed

text \<open>
  Claim C2. Start from a table with no active entry, insert any list of
  (address, buffer) pairs whose stripped addresses are distinct and whose buffers
  are not \<^verbatim>\<open>NULL\<close>, every insert succeeding. Then looking up, in any order and
  each at most once, the stripped addresses of inserted pairs returns for each
  lookup exactly the buffer inserted under that address, without triggering
  recovery; and once every inserted address has been looked up, no bucket has an
  active entry.
\<close>

theorem hash_insert_then_lookup:
  assumes empty: "\<forall>i. listhead (t0 i) = []"
    and dist: "distinct (map (htt_paddr_trim_to_37 \<circ> fst) ins)"
    and nonnull: "\<forall>x \<in> set ins. snd x \<noteq> None"
    and ins: "insert_all ok t0 ins = Inr t1"
    and ks: "distinct ks" "set ks \<subseteq> set ins"
  shows "\<exists>t2. lookup_all (Some t1) rec (map (htt_paddr_trim_to_37 \<circ> fst) ks) =
                 Inr (map snd ks, Some t2, False) \<and>
              (set ks = set ins \<longrightarrow> (\<forall>i. listhead (t2 i) = []))"
proof -
  let ?f = "htt_paddr_trim_to_37 \<circ> fst"
  let ?kv = "map (\<lambda>x. (htt_paddr_trim_to_37 (fst x), snd x)) ins"
  let ?m = "map_of ?kv"
  have h1: "tbl_holds t1 ?m"
    using insert_all_holds[OF tbl_holds_empty[OF empty] dist _ ins] by simp
  have dkv: "distinct (map fst ?kv)" using dist by (simp add: comp_def)
  have m_at: "?m (?f x) = Some (snd x)" if "x \<in> set ins" for x
  proof -
    from that have "(?f x, snd x) \<in> set ?kv" by auto
    with dkv show ?thesis by (rule map_of_is_SomeI)
  qed
  have inj: "inj_on ?f (set ins)" using dist by (simp add: distinct_map)
  have das: "distinct (map ?f ks)"
    using ks inj by (auto simp: distinct_map intro: inj_on_subset)
  have ex: "\<forall>a \<in> set (map ?f ks). \<exists>nb. ?m a = Some nb \<and> nb \<noteq> None"
    using ks(2) m_at nonnull by fastforce
  from lookup_all_holds[OF h1 das ex, of rec] obtain t2 where
    la: "lookup_all (Some t1) rec (map ?f ks) = Inr (map (the \<circ> ?m) (map ?f ks), Some t2, False)"
    and h2: "tbl_holds t2 (?m |` (- set (map ?f ks)))" by blast
  have res: "map (the \<circ> ?m) (map ?f ks) = map snd ks"
    using ks(2) m_at by (auto simp del: map_of_map)
  have "listhead (t2 i) = []" if all: "set ks = set ins" for i
  proof -
    have "dom ?m = ?f ` set ins"
      by (simp add: dom_map_of_conv_image_fst image_image comp_def)
    with all have "dom ?m \<subseteq> set (map ?f ks)" by simp
    then have "dom (?m |` (- set (map ?f ks))) = {}" by auto
    with h2 show ?thesis by (rule tbl_holds_no_entries)
  qed
  with la res show ?thesis by auto
qed

lemma hash_list_iter_append:
  "\<forall>x \<in> set xs. paddr x \<noteq> a \<Longrightarrow> paddr e = a \<Longrightarrow>
     hash_list_iter (xs @ e # ys) a = Some (e, xs @ ys)"
  by (induction xs) auto

lemma lookup_at:
  assumes "listhead (tbl (RX_HASH_FUNCTION a)) = xs @ e # ys"
    and "\<forall>x \<in> set xs. paddr x \<noteq> a" and "paddr e = a" and "netbuf e \<noteq> None"
  shows "\<exists>tbl'. htt_rx_hash_list_lookup (Some tbl) rec a = Inr (netbuf e, Some tbl', False) \<and>
           (\<forall>i. listhead (tbl' i) = (if i = RX_HASH_FUNCTION a then xs @ ys else listhead (tbl i)))"
  using assms hash_list_iter_append[of xs a e ys]
  by (auto simp: htt_rx_hash_list_lookup_def Let_def)

lemma insert_all_malloc_ok: "\<exists>t1. insert_all True t ins = Inr t1"
proof (induction ins arbitrary: t)
  case Nil
  show ?case by simp
next
  case (Cons x ins)
  obtain pa nb where x: "x = (pa, nb)" by (cases x)
  from insert_malloc_ok[of t pa nb] obtain t' where
    "htt_rx_hash_list_insert t True pa nb = Inr (0, t')" by blast
  with Cons.IH[of t'] x show ?case by auto
qed

text \<open>
  Claim C9. When two entries with the same stripped address are active at once,
  lookups return them in insertion order: the first lookup returns the buffer
  inserted first, the next lookup the buffer inserted second.
\<close>

theorem hash_lookup_fifo:
  assumes none: "hash_list_peek t a = None"
    and p1: "htt_paddr_trim_to_37 p1 = a" and p2: "htt_paddr_trim_to_37 p2 = a"
    and i1: "htt_rx_hash_list_insert t ok1 p1 b1 = Inr (r1, t1)"
    and i2: "htt_rx_hash_list_insert t1 ok2 p2 b2 = Inr (r2, t2)"
    and nn: "b1 \<noteq> None" "b2 \<noteq> None"
  shows "\<exists>t3 t4. htt_rx_hash_list_lookup (Some t2) rec a = Inr (b1, Some t3, False) \<and>
                 htt_rx_hash_list_lookup (Some t3) rec a = Inr (b2, Some t4, False)"
proof -
  let ?h = "RX_HASH_FUNCTION a"
  let ?es = "listhead (t ?h)"
  from none have no: "\<forall>x \<in> set ?es. paddr x \<noteq> a"
    by (auto simp: hash_list_peek_def find_None_iff)
  from insert_result[OF i1] p1 obtain e1 where
    e1: "paddr e1 = a" "netbuf e1 = b1" and l1: "listhead (t1 ?h) = ?es @ [e1]" by auto
  from insert_result[OF i2] p2 obtain e2 where
    e2: "paddr e2 = a" "netbuf e2 = b2" and l2: "listhead (t2 ?h) = listhead (t1 ?h) @ [e2]" by auto
  from l1 l2 have l2': "listhead (t2 ?h) = ?es @ e1 # [e2]" by simp
  from lookup_at[where tbl = t2 and a = a and xs = ?es and e = e1 and ys = "[e2]" and rec = rec,
      OF l2' no e1(1)] e1(2) nn(1) obtain t3 where
    k1: "htt_rx_hash_list_lookup (Some t2) rec a = Inr (b1, Some t3, False)" and
    l3: "listhead (t3 ?h) = ?es @ [e2]" by auto
  from l3 have l3': "listhead (t3 ?h) = ?es @ e2 # []" by simp
  from lookup_at[where tbl = t3 and a = a and xs = ?es and e = e2 and ys = "[]" and rec = rec,
      OF l3' no e2(1)] e2(2) nn(2) obtain t4 where
    "htt_rx_hash_list_lookup (Some t3) rec a = Inr (b2, Some t4, False)" by auto
  with k1 show ?thesis by blast
qed

lemma trim_ex1: "htt_paddr_trim_to_37 0x2000001000 = 0x1000"
  by (simp add: htt_paddr_trim_to_37_def)

lemma trim_ex2: "htt_paddr_trim_to_37 0x5000 = 0x5000"
  by (simp add: htt_paddr_trim_to_37_def)

lemma trim_ex3: "htt_paddr_trim_to_37 0x1000 = 0x1000"
  by (simp add: htt_paddr_trim_to_37_def)

text \<open>
  Claim C2 at a concrete input: a marked address and a plain one are inserted into
  the freshly initialised table and looked up in the opposite order.
\<close>

theorem hash_insert_then_lookup_witness:
  "\<exists>t1 t2. insert_all True htt_rx_hash_init [(0x2000001000, Some 1), (0x5000, Some 2)] = Inr t1 \<and>
     lookup_all (Some t1) False [0x5000, 0x1000] = Inr ([Some 2, Some 1], Some t2, False) \<and>
     (\<forall>i. listhead (t2 i) = [])"
proof -
  let ?ins = "[(0x2000001000, Some 1), (0x5000, Some 2)] :: (qdf_dma_addr_t \<times> qdf_nbuf_t) list"
  let ?ks = "[(0x5000, Some 2), (0x2000001000, Some 1)] :: (qdf_dma_addr_t \<times> qdf_nbuf_t) list"
  obtain t1 where t1: "insert_all True htt_rx_hash_init ?ins = Inr t1"
    using insert_all_malloc_ok by blast
  have a: "\<forall>i. listhead (htt_rx_hash_init i) = []"
    by (simp add: htt_rx_hash_init_def)
  have b: "distinct (map (htt_paddr_trim_to_37 \<circ> fst) ?ins)"
    by (simp add: trim_ex1 trim_ex2)
  have c: "\<forall>x \<in> set ?ins. snd x \<noteq> None" by simp
  have d: "distinct ?ks" by simp
  have e: "set ?ks \<subseteq> set ?ins" by simp
  from hash_insert_then_lookup[OF a b c t1 d e, of False] t1 show ?thesis
    by (auto simp: trim_ex1 trim_ex2)
qed

text \<open>
  Claim C9 at a concrete input: the same bus address inserted plain and marked.
\<close>

theorem hash_lookup_fifo_witness:
  "\<exists>t1 t2 t3 t4.
     htt_rx_hash_list_insert htt_rx_hash_init True 0x1000 (Some 7) = Inr (0, t1) \<and>
     htt_rx_hash_list_insert t1 True 0x2000001000 (Some 8) = Inr (0, t2) \<and>
     htt_rx_hash_list_lookup (Some t2) False 0x1000 = Inr (Some 7, Some t3, False) \<and>
     htt_rx_hash_list_lookup (Some t3) False 0x1000 = Inr (Some 8, Some t4, False)"
proof -
  obtain t1 where t1: "htt_rx_hash_list_insert htt_rx_hash_init True 0x1000 (Some 7) = Inr (0, t1)"
    using insert_malloc_ok by blast
  obtain t2 where t2: "htt_rx_hash_list_insert t1 True 0x2000001000 (Some 8) = Inr (0, t2)"
    using insert_malloc_ok by blast
  have n: "hash_list_peek htt_rx_hash_init 0x1000 = None"
    by (simp add: hash_list_peek_def htt_rx_hash_init_def)
  from hash_lookup_fifo[OF n trim_ex3 trim_ex1 t1 t2, of False] t1 t2 show ?thesis
    by auto
qed

subsection \<open>Ring fill: termination, index and fill count\<close>

lemma fill_one_continue:
  assumes "fill_one att pdev idx = FILL_CONTINUE pdev'"
  shows "refill_debt pdev' = refill_debt pdev \<and> size_mask pdev' = size_mask pdev \<and>
         ring_size pdev' = ring_size pdev \<and>
         is_full_reorder_offload pdev' = is_full_reorder_offload pdev \<and>
         fill_cnt pdev' = fill_cnt pdev + 1 \<and>
         (hash_table pdev \<noteq> None \<longrightarrow> hash_table pdev' \<noteq> None)"
  using assms
  by (auto simp: fill_one_def Let_def qdf_nbuf_map_def clear_attention_def
      split: fill_attempt.splits option.splits sum.splits if_splits)

lemma fill_one_goto_update:
  assumes "fill_one att pdev idx = FILL_GOTO_UPDATE pdev'"
  shows "fill_cnt pdev' = fill_cnt pdev"
  using assms
  by (auto simp: fill_one_def Let_def qdf_nbuf_map_def qdf_nbuf_unmap_def qdf_nbuf_free_def
      clear_attention_def
      split: fill_attempt.splits option.splits sum.splits if_splits)


text \<open>Termination of the last pass: no debt left to serve.\<close>

lemma fill_loop_last_pass:
  assumes "refill_debt pdev \<le> debt_served" and "nat num = n"
  shows "\<exists>r. fill_loop env pdev num idx filled debt_served k = Some r \<and>
             (case r of Inl f \<Rightarrow> True
              | Inr (fl, pdev') \<Rightarrow> filled \<le> fl \<and> fl \<le> filled + int n \<and>
                  fill_cnt pdev' = fill_cnt pdev + (fl - filled))"
  using assms
proof (induction n arbitrary: pdev num idx filled k)
  case 0
  then have "\<not> num > 0" by simp
  with 0 show ?case
    by (subst fill_loop.simps) simp
next
  case (Suc n)
  then have pos: "num > 0" by simp
  show ?case
  proof (cases "fill_one (env k) pdev idx")
    case (FILL_ABORT f)
    with pos show ?thesis by (subst fill_loop.simps) simp
  next
    case (FILL_GOTO_UPDATE pdev')
    with pos fill_one_goto_update[OF FILL_GOTO_UPDATE] show ?thesis
      by (subst fill_loop.simps) simp
  next
    case (FILL_CONTINUE pdev')
    note c = fill_one_continue[OF FILL_CONTINUE]
    from Suc.prems c have d: "refill_debt pdev' \<le> debt_served" by simp
    from Suc.prems have n: "nat (num - 1) = n" by simp
    from Suc.IH[OF d n, of "(idx + 1) AND size_mask pdev'" "filled + 1" "Suc k"]
    obtain r where r: "fill_loop env pdev' (num - 1) ((idx + 1) AND size_mask pdev')
        (filled + 1) debt_served (Suc k) = Some r"
      and b: "case r of Inl f \<Rightarrow> True
              | Inr (fl, p) \<Rightarrow> filled + 1 \<le> fl \<and> fl \<le> filled + 1 + int n \<and>
                  fill_cnt p = fill_cnt pdev' + (fl - (filled + 1))"
      by blast
    have "fill_loop env pdev num idx filled debt_served k = Some r"
      using pos FILL_CONTINUE r by (subst fill_loop.simps) simp
    moreover have "case r of Inl f \<Rightarrow> True
              | Inr (fl, p) \<Rightarrow> filled \<le> fl \<and> fl \<le> filled + int (Suc n) \<and>
                  fill_cnt p = fill_cnt pdev + (fl - filled)"
      using b c by (auto split: sum.splits)
    ultimately show ?thesis by blast
  qed
qed

lemma fill_loop_terminates:
  assumes "0 \<le> debt_served" and "nat num = n"
  shows "\<exists>r. fill_loop env pdev num idx filled debt_served k = Some r \<and>
             (case r of Inl f \<Rightarrow> True
              | Inr (fl, pdev') \<Rightarrow> filled \<le> fl \<and>
                  fl \<le> filled + int n + max 0 (refill_debt pdev) \<and>
                  fill_cnt pdev' = fill_cnt pdev + (fl - filled))"
  using assms
proof (induction n arbitrary: pdev num idx filled k)
  case 0
  then have np: "\<not> num > 0" by simp
  show ?case
  proof (cases "debt_served < refill_debt pdev")
    case False
    with np show ?thesis by (subst fill_loop.simps) simp
  next
    case True
    with 0 have d: "refill_debt pdev \<le> debt_served + refill_debt pdev" by simp
    from fill_loop_last_pass[OF d refl, of env "refill_debt pdev" idx filled k]
    obtain r where r: "fill_loop env pdev (refill_debt pdev) idx filled
        (debt_served + refill_debt pdev) k = Some r"
      and b: "case r of Inl f \<Rightarrow> True
              | Inr (fl, p) \<Rightarrow> filled \<le> fl \<and> fl \<le> filled + int (nat (refill_debt pdev)) \<and>
                  fill_cnt p = fill_cnt pdev + (fl - filled)"
      by blast
    have "fill_loop env pdev num idx filled debt_served k = Some r"
      using np True r by (subst fill_loop.simps) simp
    moreover have "case r of Inl f \<Rightarrow> True
              | Inr (fl, p) \<Rightarrow> filled \<le> fl \<and>
                  fl \<le> filled + int 0 + max 0 (refill_debt pdev) \<and>
                  fill_cnt p = fill_cnt pdev + (fl - filled)"
      using b by (auto split: sum.splits if_splits simp: max_def)
    ultimately show ?thesis by blast
  qed
next
  case (Suc n)
  then have pos: "num > 0" by simp
  show ?case
  proof (cases "fill_one (env k) pdev idx")
    case (FILL_ABORT f)
    with pos show ?thesis by (subst fill_loop.simps) simp
  next
    case (FILL_GOTO_UPDATE pdev')
    with pos fill_one_goto_update[OF FILL_GOTO_UPDATE] show ?thesis
      by (subst fill_loop.simps) simp
  next
    case (FILL_CONTINUE pdev')
    note c = fill_one_continue[OF FILL_CONTINUE]
    from Suc.prems have n: "nat (num - 1) = n" by simp
    from Suc.IH[OF Suc.prems(1) n, of pdev' "(idx + 1) AND size_mask pdev'" "filled + 1" "Suc k"]
    obtain r where r: "fill_loop env pdev' (num - 1) ((idx + 1) AND size_mask pdev')
        (filled + 1) debt_served (Suc k) = Some r"
      and b: "case r of Inl f \<Rightarrow> True
              | Inr (fl, p) \<Rightarrow> filled + 1 \<le> fl \<and>
                  fl \<le> filled + 1 + int n + max 0 (refill_debt pdev') \<and>
                  fill_cnt p = fill_cnt pdev' + (fl - (filled + 1))"
      by blast
    have "fill_loop env pdev num idx filled debt_served k = Some r"
      using pos FILL_CONTINUE r by (subst fill_loop.simps) simp
    moreover have "case r of Inl f \<Rightarrow> True
              | Inr (fl, p) \<Rightarrow> filled \<le> fl \<and>
                  fl \<le> filled + int (Suc n) + max 0 (refill_debt pdev) \<and>
                  fill_cnt p = fill_cnt pdev + (fl - filled)"
      using b c by (auto split: sum.splits)
    ultimately show ?thesis by blast
  qed
qed

text \<open>
  Claim C8. With the debt counter fixed for the duration of the call,
  \<^verbatim>\<open>htt_rx_ring_fill_n\<close> returns for every request, every device state and every
  behaviour of the collaborators (the loop, including the \<^verbatim>\<open>goto moretofill\<close>
  repetition, is left after finitely many iterations), and the number of buffers
  filled is at most \<open>max 0 num + max 0 debt\<close>.
\<close>

theorem fill_n_terminates:
  "\<exists>r. htt_rx_ring_fill_n env pdev num = Some r \<and>
        (case r of Inl f \<Rightarrow> True
         | Inr (filled, pdev') \<Rightarrow> 0 \<le> filled \<and> filled \<le> max 0 num + max 0 (refill_debt pdev))"
proof (cases "alloc_idx pdev < 0 \<or> alloc_idx pdev > size_mask pdev \<or> num > ring_size pdev")
  case True
  then show ?thesis by (auto simp: htt_rx_ring_fill_n_def)
next
  case False
  have z: "(0::int) \<le> 0" by simp
  from fill_loop_terminates[OF z refl, of env pdev num "alloc_idx pdev" 0 0]
  obtain r where r: "fill_loop env pdev num (alloc_idx pdev) 0 0 0 = Some r"
    and b: "case r of Inl f \<Rightarrow> True
              | Inr (fl, p) \<Rightarrow> 0 \<le> fl \<and> fl \<le> 0 + int (nat num) + max 0 (refill_debt pdev) \<and>
                  fill_cnt p = fill_cnt pdev + (fl - 0)"
    by blast
  from False r have "htt_rx_ring_fill_n env pdev num = Some r"
    by (simp add: htt_rx_ring_fill_n_def)
  moreover from b have "case r of Inl f \<Rightarrow> True
         | Inr (filled, pdev') \<Rightarrow> 0 \<le> filled \<and> filled \<le> max 0 num + max 0 (refill_debt pdev)"
    by (auto split: sum.splits if_splits simp: max_def)
  ultimately show ?thesis by blast
qed




lemma ring_size_40: "htt_rx_ring_size 40 = 128"
  by (simp add: htt_rx_ring_size_def HTT_RX_AVG_FRM_BYTES_def HTT_RX_HOST_LATENCY_MAX_MS_def
      HTT_RX_RING_SIZE_MIN_def qdf_get_pwr2_def)


lemma attach_state_fields:
  "ring_size (htt_rx_attach_state 40 l off st) = 2 ^ 7"
  "size_mask (htt_rx_attach_state 40 l off st) = ring_size (htt_rx_attach_state 40 l off st) - 1"
  "alloc_idx (htt_rx_attach_state 40 l off st) = 0"
  "fill_cnt (htt_rx_attach_state 40 l off st) = 0"
  "refill_debt (htt_rx_attach_state 40 l off st) = 0"
  "recovery_triggers (htt_rx_attach_state 40 l off st) = 0"
  "is_full_reorder_offload (htt_rx_attach_state 40 l off st) \<longrightarrow>
     hash_table (htt_rx_attach_state 40 l off st) \<noteq> None"
  by (simp_all add: htt_rx_attach_state_def ring_size_40)























text \<open>
  Claim C6, amended. A lookup that finds no entry for the address triggers
  recovery when self recovery is enabled and aborts otherwise. An out-of-range
  ring index, or a request larger than the ring, at the start of a fill call is
  not fatal: the call returns 0 and leaves the device state as it was, with no
  recovery trigger and no abort.
\<close>

theorem desync_handling:
  assumes miss: "hash_list_peek tbl a = None"
    and bad: "alloc_idx pdev < 0 \<or> alloc_idx pdev > size_mask pdev \<or> num > ring_size pdev"
  shows "htt_rx_hash_list_lookup (Some tbl) recovery a =
           (if recovery then Inr (None, Some tbl, True) else Inl ASSERT_ALWAYS_FAILED) \<and>
         htt_rx_ring_fill_n env pdev num = Some (Inr (0, pdev))"
  using lookup_miss[OF miss, of recovery] bad
  by (simp add: htt_rx_ring_fill_n_def)

text \<open>Claim C6 (amended) at a concrete input.\<close>

theorem desync_handling_witness:
  "htt_rx_hash_list_lookup (Some htt_rx_hash_init) True 0x1000 =
     Inr (None, Some htt_rx_hash_init, True) \<and>
   htt_rx_hash_list_lookup (Some htt_rx_hash_init) False 0x1000 = Inl ASSERT_ALWAYS_FAILED \<and>
   htt_rx_ring_fill_n every_attempt_mapped (htt_rx_attach_state 40 20 True blank_store) 129 =
     Some (Inr (0, htt_rx_attach_state 40 20 True blank_store))"
proof -
  have n: "hash_list_peek htt_rx_hash_init 0x1000 = None"
    by (simp add: hash_list_peek_def htt_rx_hash_init_def)
  let ?p = "htt_rx_attach_state 40 20 True blank_store"
  have b: "alloc_idx ?p < 0 \<or> alloc_idx ?p > size_mask ?p \<or> 129 > ring_size ?p"
    by (simp add: attach_state_fields)
  from desync_handling[OF n b, of True every_attempt_mapped]
    desync_handling[OF n b, of False every_attempt_mapped]
  show ?thesis by simp
qed

text \<open>
  Claim C6 as stated fails: a fill request of 129 buffers on a ring of size 128 is
  answered with 0 and an unchanged state; nothing aborts and no recovery is
  triggered.
\<close>

theorem fill_guard_not_fatal_counterexample:
  "htt_rx_ring_fill_n every_attempt_mapped (htt_rx_attach_state 40 20 True blank_store) 129 =
     Some (Inr (0, htt_rx_attach_state 40 20 True blank_store)) \<and>
   recovery_triggers (htt_rx_attach_state 40 20 True blank_store) = 0"
  by (simp add: htt_rx_ring_fill_n_def attach_state_fields)

subsection \<open>Pop routines: chained lengths and address-ordered reassembly\<close>

lemma usable_capacity_uint:
  assumes "RX_STD_DESC_SIZE c \<le> HTT_RX_BUF_SIZE c" and "HTT_RX_BUF_SIZE c < 2 ^ 31"
  shows "uint (usable_capacity c) = int (HTT_RX_BUF_SIZE c) - int (RX_STD_DESC_SIZE c)"
proof -
  let ?B = "HTT_RX_BUF_SIZE c" and ?D = "RX_STD_DESC_SIZE c"
  have "usable_capacity c = word_of_nat (?B - ?D)"
    using assms(1) by (simp add: usable_capacity_def of_nat_diff)
  moreover have "?B - ?D < 2 ^ 32" using assms(2) by simp
  ultimately have "unat (usable_capacity c) = ?B - ?D"
    by (simp add: of_nat_inverse)
  then have "uint (usable_capacity c) = int (?B - ?D)"
    by (simp add: uint_nat)
  with assms(1) show ?thesis by simp
qed

lemma clamp_chained_len_le:
  "uint (clamp_chained_len c l) \<le> uint (usable_capacity c)"
  by (simp add: clamp_chained_len_def word_le_def word_less_def)

lemma last_chained_trim_exact:
  assumes "RX_STD_DESC_SIZE c \<le> HTT_RX_BUF_SIZE c" and "HTT_RX_BUF_SIZE c < 2 ^ 31"
  shows "sint (last_chained_trim c l) =
           int (HTT_RX_BUF_SIZE c) - (int (RX_STD_DESC_SIZE c) + uint (clamp_chained_len c l))"
    and "0 \<le> sint (last_chained_trim c l)"
    and "sint (last_chained_trim c l) \<le> int (HTT_RX_BUF_SIZE c) - int (RX_STD_DESC_SIZE c)"
proof -
  let ?B = "HTT_RX_BUF_SIZE c" and ?D = "RX_STD_DESC_SIZE c"
  let ?k = "clamp_chained_len c l"
  have cap: "uint (usable_capacity c) = int ?B - int ?D"
    by (rule usable_capacity_uint[OF assms])
  have kle: "uint ?k \<le> int ?B - int ?D"
    using clamp_chained_len_le[of c l] cap by simp
  have k0: "0 \<le> uint ?k" by simp
  have "last_chained_trim c l = usable_capacity c - ?k"
    by (simp add: last_chained_trim_def usable_capacity_def)
  moreover have "?k \<le> usable_capacity c"
    using clamp_chained_len_le[of c l] by (simp add: word_le_def)
  ultimately have u: "uint (last_chained_trim c l) = uint (usable_capacity c) - uint ?k"
    by (simp add: uint_minus_simple_alt)
  with cap have u': "uint (last_chained_trim c l) = int ?B - int ?D - uint ?k" by simp
  have B: "int ?B < 2147483648" using assms(2) by simp
  have "uint (last_chained_trim c l) < 2147483648"
    using u' uint_ge_0[of ?k] B by linarith
  then have "uint (last_chained_trim c l) < 2 ^ 31" by simp
  moreover have "- (2147483648) \<le> uint (last_chained_trim c l)"
    using uint_ge_0[of "last_chained_trim c l"] by linarith
  then have "- (2 ^ 31) \<le> uint (last_chained_trim c l)" by simp
  ultimately have "sint (last_chained_trim c l) = uint (last_chained_trim c l)"
    by (simp add: sint_uint signed_take_bit_int_eq_self)
  with u' kle k0 show
    "sint (last_chained_trim c l) = int ?B - (int ?D + uint ?k)"
    "0 \<le> sint (last_chained_trim c l)"
    "sint (last_chained_trim c l) \<le> int ?B - int ?D"
    by simp_all
qed

lemma in_order_len_fits:
  assumes "RX_STD_DESC_SIZE c = HTT_RX_STD_DESC_RESERVATION c"
    and "msdu_len r + HTT_RX_STD_DESC_RESERVATION c \<le> HTT_RX_BUF_SIZE c"
  shows "in_order_len c r = msdu_len r"
  using assms by (auto simp: in_order_len_def Let_def)

lemma prepare_other: "x \<noteq> b \<Longrightarrow> nbufs (in_order_prepare c pdev b r) x = nbufs pdev x"
  by (simp add: in_order_prepare_def Let_def qdf_nbuf_set_pktlen_def qdf_nbuf_unmap_def
      qdf_nbuf_pull_head_def qdf_nbuf_trim_tail_def)

lemma prepare_self:
  "nb_next (nbufs (in_order_prepare c pdev b r) b) = nb_next (nbufs pdev b)"
  "nb_len (nbufs (in_order_prepare c pdev b r) b) = in_order_len c r"
  "fw_desc_val (rx_desc (nbufs (in_order_prepare c pdev b r) b)) = msdu_fw_desc r"
  by (simp_all add: in_order_prepare_def Let_def qdf_nbuf_set_pktlen_def qdf_nbuf_unmap_def
      qdf_nbuf_pull_head_def qdf_nbuf_trim_tail_def in_order_len_def)

lemma prepare_fields:
  "hash_table (in_order_prepare c pdev b r) = hash_table pdev"
  "mic_errors (in_order_prepare c pdev b r) = mic_errors pdev"
  "freed (in_order_prepare c pdev b r) = freed pdev"
  "pop_fail_cnt (in_order_prepare c pdev b r) = pop_fail_cnt pdev"
  "recovery_triggers (in_order_prepare c pdev b r) = recovery_triggers pdev"
  by (simp_all add: in_order_prepare_def Let_def qdf_nbuf_set_pktlen_def qdf_nbuf_unmap_def
      qdf_nbuf_pull_head_def qdf_nbuf_trim_tail_def)

lemma prepare_dropped:
  "RX_DESC_MIC_ERR_IS_SET c (rx_desc (nbufs (in_order_prepare c pdev b r) b)) \<and>
     \<not> RX_DESC_DISCARD_IS_SET c (rx_desc (nbufs (in_order_prepare c pdev b r) b))
   \<longleftrightarrow> msdu_dropped c r"
  by (simp add: RX_DESC_MIC_ERR_IS_SET_def RX_DESC_DISCARD_IS_SET_def msdu_dropped_def prepare_self)

lemma lookup_hit_peek:
  assumes "hash_list_peek tbl a = Some e" and "netbuf e = Some b"
  shows "\<exists>tbl'. htt_rx_hash_list_lookup (Some tbl) rec a = Inr (Some b, Some tbl', False) \<and>
           (\<forall>a'. a' \<noteq> a \<longrightarrow> hash_list_peek tbl' a' = hash_list_peek tbl a')"
proof -
  from assms(2) have nn: "netbuf e \<noteq> None" by simp
  from lookup_hit[OF assms(1) nn, of rec] assms(2) obtain tbl' xs ys where
    lk: "htt_rx_hash_list_lookup (Some tbl) rec a = Inr (Some b, Some tbl', False)"
    and sp: "listhead (tbl (RX_HASH_FUNCTION a)) = xs @ e # ys" and pe: "paddr e = a"
    and lh: "\<And>i. listhead (tbl' i) = (if i = RX_HASH_FUNCTION a then xs @ ys else listhead (tbl i))"
    by auto
  have "hash_list_peek tbl' a' = hash_list_peek tbl a'" if "a' \<noteq> a" for a'
    using that sp pe by (simp add: hash_list_peek_def lh find_skip_other)
  with lk show ?thesis by blast
qed

lemma pop_hit:
  assumes "hash_table pdev = Some tbl"
    and "hash_list_peek tbl (htt_paddr_trim_to_37 pa) = Some e" and "netbuf e = Some b"
  shows "\<exists>pdev' tbl'. htt_rx_in_order_netbuf_pop rec pdev pa = Inr (Some b, pdev') \<and>
           hash_table pdev' = Some tbl' \<and>
           (\<forall>a'. a' \<noteq> htt_paddr_trim_to_37 pa \<longrightarrow> hash_list_peek tbl' a' = hash_list_peek tbl a') \<and>
           nbufs pdev' = nbufs pdev \<and> mic_errors pdev' = mic_errors pdev \<and>
           freed pdev' = freed pdev \<and> pop_fail_cnt pdev' = pop_fail_cnt pdev \<and>
           recovery_triggers pdev' = recovery_triggers pdev"
proof -
  from lookup_hit_peek[OF assms(2,3), of rec] obtain tbl' where
    "htt_rx_hash_list_lookup (Some tbl) rec (htt_paddr_trim_to_37 pa) = Inr (Some b, Some tbl', False)"
    "\<forall>a'. a' \<noteq> htt_paddr_trim_to_37 pa \<longrightarrow> hash_list_peek tbl' a' = hash_list_peek tbl a'"
    by blast
  with assms(1) show ?thesis
    by (simp add: htt_rx_in_order_netbuf_pop_def)
qed


text \<open>The four ways through one pass of the loop when the next pop succeeds.\<close>

lemma loop_good_last:
  assumes "\<not> msdu_dropped c (msdus msg j)"
  shows "in_order_loop c rec msg (Suc 0) j msdu prev head tail pdev =
           Inr (1, head, Some msdu,
                qdf_nbuf_set_next (in_order_prepare c pdev msdu (msdus msg j)) msdu None)"
  using assms by (simp add: Let_def prepare_dropped)

lemma loop_good_more:
  assumes "\<not> msdu_dropped c (msdus msg j)"
    and "htt_rx_in_order_netbuf_pop rec (in_order_prepare c pdev msdu (msdus msg j))
           (msdu_paddr (msdus msg (Suc j))) = Inr (Some nxt, pdev3)"
  shows "in_order_loop c rec msg (Suc (Suc n)) j msdu prev head tail pdev =
           in_order_loop c rec msg (Suc n) (Suc j) nxt (Some msdu) head tail
             (qdf_nbuf_set_next pdev3 msdu (Some nxt))"
  using assms by (simp add: Let_def prepare_dropped)


lemma loop_drop_last:
  assumes "msdu_dropped c (msdus msg j)"
  shows "in_order_loop c rec msg (Suc 0) j msdu prev head tail pdev =
           (let pdev2 = qdf_nbuf_free (ol_rx_mic_error_handler
                          (in_order_prepare c pdev msdu (msdus msg j)) msdu) msdu
            in case prev of
                 None \<Rightarrow> Inr (0, None, None, pdev2)
               | Some p \<Rightarrow> Inr (1, head, Some p, qdf_nbuf_set_next pdev2 p None))"
  using assms by (simp add: Let_def prepare_dropped)

lemma loop_drop_more:
  assumes "msdu_dropped c (msdus msg j)"
    and "htt_rx_in_order_netbuf_pop rec
           (qdf_nbuf_free (ol_rx_mic_error_handler
              (in_order_prepare c pdev msdu (msdus msg j)) msdu) msdu)
           (msdu_paddr (msdus msg (Suc j))) = Inr (Some nxt, pdev3)"
  shows "in_order_loop c rec msg (Suc (Suc n)) j msdu prev head tail pdev =
           (case prev of
              Some p \<Rightarrow> in_order_loop c rec msg (Suc n) (Suc j) nxt prev head tail
                          (qdf_nbuf_set_next pdev3 p (Some nxt))
            | None \<Rightarrow> in_order_loop c rec msg (Suc n) (Suc j) nxt prev (Some nxt) tail pdev3)"
  using assms by (simp add: Let_def prepare_dropped)

lemma store_simps:
  "nbufs (qdf_nbuf_set_next pdev b x) y =
     (if y = b then (nbufs pdev b)\<lparr>nb_next := x\<rparr> else nbufs pdev y)"
  "nbufs (qdf_nbuf_free pdev b) = nbufs pdev"
  "nbufs (ol_rx_mic_error_handler pdev b) = nbufs pdev"
  "nbufs (pop_failed pdev) = nbufs pdev"
  "hash_table (qdf_nbuf_set_next pdev b x) = hash_table pdev"
  "hash_table (qdf_nbuf_free pdev b) = hash_table pdev"
  "hash_table (ol_rx_mic_error_handler pdev b) = hash_table pdev"
  "mic_errors (qdf_nbuf_set_next pdev b x) = mic_errors pdev"
  "mic_errors (qdf_nbuf_free pdev b) = mic_errors pdev"
  "mic_errors (ol_rx_mic_error_handler pdev b) = mic_errors pdev @ [b]"
  "mic_errors (pop_failed pdev) = mic_errors pdev"
  "freed (qdf_nbuf_set_next pdev b x) = freed pdev"
  "freed (qdf_nbuf_free pdev b) = freed pdev @ [b]"
  "freed (ol_rx_mic_error_handler pdev b) = freed pdev"
  "freed (pop_failed pdev) = freed pdev"
  "pop_fail_cnt (pop_failed pdev) = pop_fail_cnt pdev + 1"
  "pop_fail_cnt (qdf_nbuf_set_next pdev b x) = pop_fail_cnt pdev"
  "recovery_triggers (pop_failed pdev) = recovery_triggers pdev"
  "recovery_triggers (qdf_nbuf_set_next pdev b x) = recovery_triggers pdev"
  by (simp_all add: qdf_nbuf_set_next_def qdf_nbuf_free_def ol_rx_mic_error_handler_def
      pop_failed_def)

lemma upt_range_Cons: "[j..<j + Suc n] = j # [Suc j..<Suc j + n]"
  by (simp add: upt_conv_Cons)

lemma range_single: "(j \<le> i \<and> i < Suc j) = (i = j)"
  by auto

lemma loop_post_single_good:
  assumes good: "\<not> msdu_dropped c (msdus msg j)"
    and link: "case prev of None \<Rightarrow> head = Some (bs j) | Some p \<Rightarrow> nb_next (nbufs pdev p) = Some (bs j)"
    and out: "\<forall>p. prev = Some p \<longrightarrow> bs j \<noteq> p"
  shows "loop_post c msg bs j (Suc 0) prev head pdev 1 head (Some (bs j))
           (qdf_nbuf_set_next (in_order_prepare c pdev (bs j) (msdus msg j)) (bs j) None)"
  using assms
  by (cases prev)
     (auto simp: loop_post_def Let_def store_simps prepare_self prepare_other prepare_fields
        range_single)

lemma loop_post_single_drop:
  assumes bad: "msdu_dropped c (msdus msg j)"
    and out: "\<forall>p. prev = Some p \<longrightarrow> bs j \<noteq> p"
  shows "case prev of
           None \<Rightarrow> loop_post c msg bs j (Suc 0) prev head pdev 0 None None
                     (qdf_nbuf_free (ol_rx_mic_error_handler
                        (in_order_prepare c pdev (bs j) (msdus msg j)) (bs j)) (bs j))
         | Some p \<Rightarrow> loop_post c msg bs j (Suc 0) prev head pdev 1 head (Some p)
                     (qdf_nbuf_set_next (qdf_nbuf_free (ol_rx_mic_error_handler
                        (in_order_prepare c pdev (bs j) (msdus msg j)) (bs j)) (bs j)) p None)"
  using assms
  by (cases prev)
     (auto simp: loop_post_def Let_def store_simps prepare_self prepare_other prepare_fields
        range_single)

lemma range_Suc: "(j \<le> i \<and> i < j + Suc (Suc n)) = (i = j \<or> (Suc j \<le> i \<and> i < Suc j + Suc n))"
  by auto

lemma loop_post_compose_good:
  assumes good: "\<not> msdu_dropped c (msdus msg j)"
    and link: "case prev of None \<Rightarrow> head = Some (bs j) | Some p \<Rightarrow> nb_next (nbufs pdev p) = Some (bs j)"
    and out: "\<forall>p. prev = Some p \<longrightarrow> (\<forall>i. j \<le> i \<and> i < j + Suc (Suc n) \<longrightarrow> bs i \<noteq> p)"
    and inj: "\<forall>i. Suc j \<le> i \<and> i < Suc j + Suc n \<longrightarrow> bs i \<noteq> bs j"
    and mid: "\<forall>x. nbufs pdevM x =
                (if x = bs j
                 then (nbufs (in_order_prepare c pdev (bs j) (msdus msg j)) (bs j))
                        \<lparr>nb_next := Some (bs (Suc j))\<rparr>
                 else nbufs pdev x)"
      "mic_errors pdevM = mic_errors pdev" "freed pdevM = freed pdev"
    and post: "loop_post c msg bs (Suc j) (Suc n) (Some (bs j)) head pdevM ret head' tail' pdev'"
  shows "loop_post c msg bs j (Suc (Suc n)) prev head pdev ret head' tail' pdev'"
proof -
  let ?G' = "map bs (filter (\<lambda>i. \<not> msdu_dropped c (msdus msg i)) [Suc j..<Suc j + Suc n])"
  let ?D' = "map bs (filter (\<lambda>i. msdu_dropped c (msdus msg i)) [Suc j..<Suc j + Suc n])"
  have G: "map bs (filter (\<lambda>i. \<not> msdu_dropped c (msdus msg i)) [j..<j + Suc (Suc n)]) = bs j # ?G'"
    and D: "map bs (filter (\<lambda>i. msdu_dropped c (msdus msg i)) [j..<j + Suc (Suc n)]) = ?D'"
    using good
    by (simp_all only: upt_range_Cons[of j "Suc n"] filter.simps list.map simp_thms if_True if_False)
  from post have
    r: "ret = 1" and h: "head' = head"
    and t: "tail' = (if ?G' = [] then Some (bs j) else Some (last ?G'))"
    and ch: "is_chain (nbufs pdev') (nb_next (nbufs pdev' (bs j))) ?G'"
    and len: "\<And>i. Suc j \<le> i \<Longrightarrow> i < Suc j + Suc n \<Longrightarrow>
               nb_len (nbufs pdev' (bs i)) = in_order_len c (msdus msg i)"
    and fr: "\<And>x. (\<forall>i. Suc j \<le> i \<and> i < Suc j + Suc n \<longrightarrow> bs i \<noteq> x) \<Longrightarrow>
               nb_len (nbufs pdev' x) = nb_len (nbufs pdevM x) \<and>
               (Some (bs j) \<noteq> Some x \<longrightarrow> nb_next (nbufs pdev' x) = nb_next (nbufs pdevM x))"
    and me: "mic_errors pdev' = mic_errors pdevM @ ?D'" "freed pdev' = freed pdevM @ ?D'"
    by (simp_all add: loop_post_def Let_def)
  have lenj: "nb_len (nbufs pdev' (bs j)) = in_order_len c (msdus msg j)"
    using fr[of "bs j"] inj mid(1) by (simp add: prepare_self)
  have frame: "nb_len (nbufs pdev' x) = nb_len (nbufs pdev x) \<and>
      (prev \<noteq> Some x \<longrightarrow> nb_next (nbufs pdev' x) = nb_next (nbufs pdev x))"
    if x: "\<forall>i. j \<le> i \<and> i < j + Suc (Suc n) \<longrightarrow> bs i \<noteq> x" for x
  proof -
    from x have xj: "x \<noteq> bs j" and xr: "\<forall>i. Suc j \<le> i \<and> i < Suc j + Suc n \<longrightarrow> bs i \<noteq> x"
      by (auto simp: range_Suc)
    from fr[OF xr] xj mid(1) show ?thesis by simp
  qed
  have chain: "is_chain (nbufs pdev') (case prev of None \<Rightarrow> head' | Some p \<Rightarrow> nb_next (nbufs pdev' p))
      (bs j # ?G')"
  proof (cases prev)
    case None
    with link h ch show ?thesis by simp
  next
    case (Some p)
    with out have pr: "\<forall>i. j \<le> i \<and> i < j + Suc (Suc n) \<longrightarrow> bs i \<noteq> p" by blast
    then have "p \<noteq> bs j" by auto
    with frame[OF pr] Some link have "nb_next (nbufs pdev' p) = Some (bs j)"
      using fr[of p] pr mid(1) by (auto simp: range_Suc)
    with Some ch show ?thesis by simp
  qed
  have lens: "\<forall>i. j \<le> i \<and> i < j + Suc (Suc n) \<longrightarrow>
      nb_len (nbufs pdev' (bs i)) = in_order_len c (msdus msg i)"
  proof (intro allI impI)
    fix i assume a: "j \<le> i \<and> i < j + Suc (Suc n)"
    show "nb_len (nbufs pdev' (bs i)) = in_order_len c (msdus msg i)"
    proof (cases "i = j")
      case True
      with lenj show ?thesis by simp
    next
      case False
      with a have "Suc j \<le> i" "i < Suc j + Suc n" by auto
      then show ?thesis by (rule len)
    qed
  qed
  have hd': "head' = (case prev of None \<Rightarrow> Some (bs j) | Some p \<Rightarrow> head)"
    using h link by (cases prev) simp_all
  show ?thesis
    unfolding loop_post_def Let_def G D
    using r hd' t chain lens frame me mid(2,3) by (auto split: option.splits)
qed

lemma loop_post_compose_drop:
  assumes bad: "msdu_dropped c (msdus msg j)"
    and out: "\<forall>p. prev = Some p \<longrightarrow> (\<forall>i. j \<le> i \<and> i < j + Suc (Suc n) \<longrightarrow> bs i \<noteq> p)"
    and inj: "\<forall>i. Suc j \<le> i \<and> i < Suc j + Suc n \<longrightarrow> bs i \<noteq> bs j"
    and mid: "\<forall>x. nb_len (nbufs pdevM x) =
                (if x = bs j then in_order_len c (msdus msg j) else nb_len (nbufs pdev x))"
      "\<forall>x. prev \<noteq> Some x \<longrightarrow> x \<noteq> bs j \<longrightarrow> nb_next (nbufs pdevM x) = nb_next (nbufs pdev x)"
      "mic_errors pdevM = mic_errors pdev @ [bs j]" "freed pdevM = freed pdev @ [bs j]"
    and post: "loop_post c msg bs (Suc j) (Suc n) prev
                 (case prev of None \<Rightarrow> Some (bs (Suc j)) | Some p \<Rightarrow> head)
                 pdevM ret head' tail' pdev'"
  shows "loop_post c msg bs j (Suc (Suc n)) prev head pdev ret head' tail' pdev'"
proof -
  let ?G' = "map bs (filter (\<lambda>i. \<not> msdu_dropped c (msdus msg i)) [Suc j..<Suc j + Suc n])"
  let ?D' = "map bs (filter (\<lambda>i. msdu_dropped c (msdus msg i)) [Suc j..<Suc j + Suc n])"
  have G: "map bs (filter (\<lambda>i. \<not> msdu_dropped c (msdus msg i)) [j..<j + Suc (Suc n)]) = ?G'"
    and D: "map bs (filter (\<lambda>i. msdu_dropped c (msdus msg i)) [j..<j + Suc (Suc n)]) = bs j # ?D'"
    using bad
    by (simp_all only: upt_range_Cons[of j "Suc n"] filter.simps list.map simp_thms if_True if_False)
  from post have
    r: "ret = (if ?G' = [] \<and> prev = None then 0 else 1)"
    and h: "head' = (case prev of None \<Rightarrow> (if ?G' = [] then None else Some (hd ?G')) | Some p \<Rightarrow> head)"
    and t: "tail' = (if ?G' = [] then prev else Some (last ?G'))"
    and ch: "is_chain (nbufs pdev') (case prev of None \<Rightarrow> head' | Some p \<Rightarrow> nb_next (nbufs pdev' p)) ?G'"
    and len: "\<And>i. Suc j \<le> i \<Longrightarrow> i < Suc j + Suc n \<Longrightarrow>
               nb_len (nbufs pdev' (bs i)) = in_order_len c (msdus msg i)"
    and fr: "\<And>x. (\<forall>i. Suc j \<le> i \<and> i < Suc j + Suc n \<longrightarrow> bs i \<noteq> x) \<Longrightarrow>
               nb_len (nbufs pdev' x) = nb_len (nbufs pdevM x) \<and>
               (prev \<noteq> Some x \<longrightarrow> nb_next (nbufs pdev' x) = nb_next (nbufs pdevM x))"
    and me: "mic_errors pdev' = mic_errors pdevM @ ?D'" "freed pdev' = freed pdevM @ ?D'"
    by (auto simp: loop_post_def Let_def split: option.splits)
  have lenj: "nb_len (nbufs pdev' (bs j)) = in_order_len c (msdus msg j)"
    using fr[of "bs j"] inj mid(1) by simp
  have frame: "nb_len (nbufs pdev' x) = nb_len (nbufs pdev x) \<and>
      (prev \<noteq> Some x \<longrightarrow> nb_next (nbufs pdev' x) = nb_next (nbufs pdev x))"
    if x: "\<forall>i. j \<le> i \<and> i < j + Suc (Suc n) \<longrightarrow> bs i \<noteq> x" for x
  proof -
    from x have xj: "x \<noteq> bs j" and xr: "\<forall>i. Suc j \<le> i \<and> i < Suc j + Suc n \<longrightarrow> bs i \<noteq> x"
      by (auto simp: range_Suc)
    from fr[OF xr] xj mid(1,2) show ?thesis by simp
  qed
  have lens: "\<forall>i. j \<le> i \<and> i < j + Suc (Suc n) \<longrightarrow>
      nb_len (nbufs pdev' (bs i)) = in_order_len c (msdus msg i)"
  proof (intro allI impI)
    fix i assume a: "j \<le> i \<and> i < j + Suc (Suc n)"
    show "nb_len (nbufs pdev' (bs i)) = in_order_len c (msdus msg i)"
    proof (cases "i = j")
      case True
      with lenj show ?thesis by simp
    next
      case False
      with a have "Suc j \<le> i" "i < Suc j + Suc n" by auto
      then show ?thesis by (rule len)
    qed
  qed
  show ?thesis
    unfolding loop_post_def Let_def G D
    using r h t ch lens frame me mid(3,4) by (auto split: option.splits)
qed

lemma in_order_loop_run:
  assumes tbl: "hash_table pdev = Some tbl"
    and posted: "\<forall>i. j < i \<and> i < j + Suc n \<longrightarrow>
        (\<exists>e. hash_list_peek tbl (posted_addr msg i) = Some e \<and> netbuf e = Some (bs i))"
    and inj_a: "\<forall>i i'. j < i \<and> i < i' \<and> i' < j + Suc n \<longrightarrow> posted_addr msg i \<noteq> posted_addr msg i'"
    and inj_b: "\<forall>i i'. j \<le> i \<and> i < i' \<and> i' < j + Suc n \<longrightarrow> bs i \<noteq> bs i'"
    and out: "\<forall>p. prev = Some p \<longrightarrow> (\<forall>i. j \<le> i \<and> i < j + Suc n \<longrightarrow> bs i \<noteq> p)"
    and link: "case prev of None \<Rightarrow> head = Some (bs j)
               | Some p \<Rightarrow> nb_next (nbufs pdev p) = Some (bs j)"
  shows "\<exists>ret head' tail' pdev'.
           in_order_loop c rec msg (Suc n) j (bs j) prev head tail pdev =
             Inr (ret, head', tail', pdev') \<and>
           loop_post c msg bs j (Suc n) prev head pdev ret head' tail' pdev'"
  using assms
proof (induction n arbitrary: j prev head pdev tbl)
  case 0
  have o: "\<forall>p. prev = Some p \<longrightarrow> bs j \<noteq> p"
  proof (intro allI impI)
    fix p assume "prev = Some p"
    moreover have "j \<le> j \<and> j < j + Suc 0" by simp
    ultimately show "bs j \<noteq> p" using "0.prems"(5) by blast
  qed
  show ?case
  proof (cases "msdu_dropped c (msdus msg j)")
    case False
    from loop_good_last[OF False, of rec "bs j" prev head tail pdev]
      loop_post_single_good[where bs = bs and j = j and c = c and msg = msg and prev = prev
        and head = head and pdev = pdev, OF False "0.prems"(6) o]
    show ?thesis by auto
  next
    case True
    from loop_drop_last[OF True, of rec "bs j" prev head tail pdev]
      loop_post_single_drop[where bs = bs and j = j and c = c and msg = msg and prev = prev
        and head = head and pdev = pdev, OF True o]
    show ?thesis by (cases prev) (auto simp: Let_def)
  qed
next
  case (Suc n)
  let ?r = "msdus msg j"
  let ?P1 = "in_order_prepare c pdev (bs j) ?r"
  from Suc.prems(2) obtain e where
    e: "hash_list_peek tbl (posted_addr msg (Suc j)) = Some e" "netbuf e = Some (bs (Suc j))"
    using Suc.prems(2)[rule_format, of "Suc j"] by auto
  have e': "hash_list_peek tbl (htt_paddr_trim_to_37 (msdu_paddr (msdus msg (Suc j)))) = Some e"
    using e(1) by (simp add: posted_addr_def)
  have inj_b': "\<forall>i i'. Suc j \<le> i \<and> i < i' \<and> i' < Suc j + Suc n \<longrightarrow> bs i \<noteq> bs i'"
  proof (intro allI impI)
    fix i i' assume "Suc j \<le> i \<and> i < i' \<and> i' < Suc j + Suc n"
    then have "j \<le> i \<and> i < i' \<and> i' < j + Suc (Suc n)" by simp
    from Suc.prems(4)[rule_format, OF this] show "bs i \<noteq> bs i'" .
  qed
  have inj_a': "\<forall>i i'. Suc j < i \<and> i < i' \<and> i' < Suc j + Suc n \<longrightarrow>
      posted_addr msg i \<noteq> posted_addr msg i'"
  proof (intro allI impI)
    fix i i' assume "Suc j < i \<and> i < i' \<and> i' < Suc j + Suc n"
    then have "j < i \<and> i < i' \<and> i' < j + Suc (Suc n)" by simp
    from Suc.prems(3)[rule_format, OF this] show "posted_addr msg i \<noteq> posted_addr msg i'" .
  qed
  have inj_j: "\<forall>i. Suc j \<le> i \<and> i < Suc j + Suc n \<longrightarrow> bs i \<noteq> bs j"
  proof (intro allI impI)
    fix i assume "Suc j \<le> i \<and> i < Suc j + Suc n"
    then have "j \<le> j \<and> j < i \<and> i < j + Suc (Suc n)" by simp
    from Suc.prems(4)[rule_format, OF this] show "bs i \<noteq> bs j" by simp
  qed
  have posted': "\<forall>i. Suc j < i \<and> i < Suc j + Suc n \<longrightarrow>
        (\<exists>e. hash_list_peek tbl' (posted_addr msg i) = Some e \<and> netbuf e = Some (bs i))"
    if pk: "\<forall>a'. a' \<noteq> htt_paddr_trim_to_37 (msdu_paddr (msdus msg (Suc j))) \<longrightarrow>
              hash_list_peek tbl' a' = hash_list_peek tbl a'" for tbl'
  proof (intro allI impI)
    fix i assume i: "Suc j < i \<and> i < Suc j + Suc n"
    then have "j < Suc j \<and> Suc j < i \<and> i < j + Suc (Suc n)" by simp
    from Suc.prems(3)[rule_format, OF this]
    have "posted_addr msg (Suc j) \<noteq> posted_addr msg i" .
    then have "hash_list_peek tbl' (posted_addr msg i) = hash_list_peek tbl (posted_addr msg i)"
      using pk by (simp add: posted_addr_def)
    moreover from i have "j < i \<and> i < j + Suc (Suc n)" by simp
    from Suc.prems(2)[rule_format, OF this] have
      "\<exists>e. hash_list_peek tbl (posted_addr msg i) = Some e \<and> netbuf e = Some (bs i)" .
    ultimately show "\<exists>e. hash_list_peek tbl' (posted_addr msg i) = Some e \<and> netbuf e = Some (bs i)"
      by simp
  qed
  show ?case
  proof (cases "msdu_dropped c ?r")
    case False
    have t1: "hash_table ?P1 = Some tbl" using Suc.prems(1) by (simp add: prepare_fields)
    from pop_hit[OF t1 e' e(2), of rec] obtain pdev3 tbl' where
      pop: "htt_rx_in_order_netbuf_pop rec ?P1 (msdu_paddr (msdus msg (Suc j))) =
              Inr (Some (bs (Suc j)), pdev3)"
      and t3: "hash_table pdev3 = Some tbl'"
      and pk: "\<forall>a'. a' \<noteq> htt_paddr_trim_to_37 (msdu_paddr (msdus msg (Suc j))) \<longrightarrow>
                 hash_list_peek tbl' a' = hash_list_peek tbl a'"
      and s3: "nbufs pdev3 = nbufs ?P1" "mic_errors pdev3 = mic_errors ?P1"
        "freed pdev3 = freed ?P1"
      by blast
    let ?M = "qdf_nbuf_set_next pdev3 (bs j) (Some (bs (Suc j)))"
    have step: "in_order_loop c rec msg (Suc (Suc n)) j (bs j) prev head tail pdev =
        in_order_loop c rec msg (Suc n) (Suc j) (bs (Suc j)) (Some (bs j)) head tail ?M"
      by (rule loop_good_more[OF False pop])
    have tM: "hash_table ?M = Some tbl'" using t3 by (simp add: store_simps)
    have outM: "\<forall>p. Some (bs j) = Some p \<longrightarrow>
        (\<forall>i. Suc j \<le> i \<and> i < Suc j + Suc n \<longrightarrow> bs i \<noteq> p)"
      using inj_j by simp
    have linkM: "case Some (bs j) of None \<Rightarrow> head = Some (bs (Suc j))
        | Some p \<Rightarrow> nb_next (nbufs ?M p) = Some (bs (Suc j))"
      by (simp add: store_simps)
    from Suc.IH[OF tM posted'[OF pk] inj_a' inj_b' outM linkM]
    obtain ret head' tail' pdev' where
      run: "in_order_loop c rec msg (Suc n) (Suc j) (bs (Suc j)) (Some (bs j)) head tail ?M =
              Inr (ret, head', tail', pdev')"
      and post: "loop_post c msg bs (Suc j) (Suc n) (Some (bs j)) head ?M ret head' tail' pdev'"
      by blast
    have mid: "\<forall>x. nbufs ?M x =
        (if x = bs j then (nbufs ?P1 (bs j))\<lparr>nb_next := Some (bs (Suc j))\<rparr> else nbufs pdev x)"
      "mic_errors ?M = mic_errors pdev" "freed ?M = freed pdev"
      using s3 by (simp_all add: store_simps prepare_other prepare_fields)
    from loop_post_compose_good[where bs = bs and j = j and c = c and msg = msg and prev = prev
        and head = head and pdev = pdev and n = n and pdevM = ?M,
        OF False Suc.prems(6) Suc.prems(5) inj_j mid post]
    have "loop_post c msg bs j (Suc (Suc n)) prev head pdev ret head' tail' pdev'" .
    moreover have
      "in_order_loop c rec msg (Suc (Suc n)) j (bs j) prev head tail pdev =
         Inr (ret, head', tail', pdev')" by (simp only: step run)
    ultimately show ?thesis by blast
  next
    case True
    let ?P2 = "qdf_nbuf_free (ol_rx_mic_error_handler ?P1 (bs j)) (bs j)"
    have t2: "hash_table ?P2 = Some tbl"
      using Suc.prems(1) by (simp add: prepare_fields store_simps)
    from pop_hit[OF t2 e' e(2), of rec] obtain pdev3 tbl' where
      pop: "htt_rx_in_order_netbuf_pop rec ?P2 (msdu_paddr (msdus msg (Suc j))) =
              Inr (Some (bs (Suc j)), pdev3)"
      and t3: "hash_table pdev3 = Some tbl'"
      and pk: "\<forall>a'. a' \<noteq> htt_paddr_trim_to_37 (msdu_paddr (msdus msg (Suc j))) \<longrightarrow>
                 hash_list_peek tbl' a' = hash_list_peek tbl a'"
      and s3: "nbufs pdev3 = nbufs ?P2" "mic_errors pdev3 = mic_errors ?P2"
        "freed pdev3 = freed ?P2"
      by blast
    note step = loop_drop_more[OF True pop, of n prev head tail]
    have out': "\<forall>p. prev = Some p \<longrightarrow> (\<forall>i. Suc j \<le> i \<and> i < Suc j + Suc n \<longrightarrow> bs i \<noteq> p)"
    proof (intro allI impI)
      fix p i assume "prev = Some p" and "Suc j \<le> i \<and> i < Suc j + Suc n"
      then have "prev = Some p" and "j \<le> i \<and> i < j + Suc (Suc n)" by simp_all
      with Suc.prems(5) show "bs i \<noteq> p" by blast
    qed
    have outj: "\<forall>p. prev = Some p \<longrightarrow> bs j \<noteq> p"
    proof (intro allI impI)
      fix p assume "prev = Some p"
      moreover have "j \<le> j \<and> j < j + Suc (Suc n)" by simp
      ultimately show "bs j \<noteq> p" using Suc.prems(5) by blast
    qed
    show ?thesis
    proof (cases prev)
      case None
      have link3: "case prev of None \<Rightarrow> Some (bs (Suc j)) = Some (bs (Suc j))
          | Some p \<Rightarrow> nb_next (nbufs pdev3 p) = Some (bs (Suc j))"
        using None by simp
      from Suc.IH[OF t3 posted'[OF pk] inj_a' inj_b' out' link3]
      obtain ret head' tail' pdev' where
        run: "in_order_loop c rec msg (Suc n) (Suc j) (bs (Suc j)) prev (Some (bs (Suc j))) tail pdev3 =
                Inr (ret, head', tail', pdev')"
        and post: "loop_post c msg bs (Suc j) (Suc n) prev (Some (bs (Suc j))) pdev3
                     ret head' tail' pdev'"
        by blast
      have mid: "\<forall>x. nb_len (nbufs pdev3 x) =
            (if x = bs j then in_order_len c ?r else nb_len (nbufs pdev x))"
        "\<forall>x. prev \<noteq> Some x \<longrightarrow> x \<noteq> bs j \<longrightarrow> nb_next (nbufs pdev3 x) = nb_next (nbufs pdev x)"
        "mic_errors pdev3 = mic_errors pdev @ [bs j]" "freed pdev3 = freed pdev @ [bs j]"
        using s3 by (simp_all add: store_simps prepare_other prepare_self prepare_fields)
      from post None have post': "loop_post c msg bs (Suc j) (Suc n) prev
          (case prev of None \<Rightarrow> Some (bs (Suc j)) | Some p \<Rightarrow> head) pdev3 ret head' tail' pdev'"
        by simp
      from loop_post_compose_drop[where bs = bs and j = j and c = c and msg = msg and prev = prev
          and head = head and pdev = pdev and n = n and pdevM = pdev3,
          OF True Suc.prems(5) inj_j mid post']
      have "loop_post c msg bs j (Suc (Suc n)) prev head pdev ret head' tail' pdev'" .
      moreover have
        "in_order_loop c rec msg (Suc (Suc n)) j (bs j) prev head tail pdev =
           Inr (ret, head', tail', pdev')"
        using step run unfolding None by (simp only: option.case)
      ultimately show ?thesis by blast
    next
      case (Some p)
      let ?M = "qdf_nbuf_set_next pdev3 p (Some (bs (Suc j)))"
      have tM: "hash_table ?M = Some tbl'" using t3 by (simp add: store_simps)
      have linkM: "case prev of None \<Rightarrow> head = Some (bs (Suc j))
          | Some p \<Rightarrow> nb_next (nbufs ?M p) = Some (bs (Suc j))"
        using Some by (simp add: store_simps)
      from Suc.IH[OF tM posted'[OF pk] inj_a' inj_b' out' linkM]
      obtain ret head' tail' pdev' where
        run: "in_order_loop c rec msg (Suc n) (Suc j) (bs (Suc j)) prev head tail ?M =
                Inr (ret, head', tail', pdev')"
        and post: "loop_post c msg bs (Suc j) (Suc n) prev head ?M ret head' tail' pdev'"
        by blast
      from outj Some have pj: "bs j \<noteq> p" by simp
      have mid: "\<forall>x. nb_len (nbufs ?M x) =
            (if x = bs j then in_order_len c ?r else nb_len (nbufs pdev x))"
        "\<forall>x. prev \<noteq> Some x \<longrightarrow> x \<noteq> bs j \<longrightarrow> nb_next (nbufs ?M x) = nb_next (nbufs pdev x)"
        "mic_errors ?M = mic_errors pdev @ [bs j]" "freed ?M = freed pdev @ [bs j]"
        using s3 Some pj
        by (auto simp: store_simps prepare_other prepare_self prepare_fields)
      from post Some have post': "loop_post c msg bs (Suc j) (Suc n) prev
          (case prev of None \<Rightarrow> Some (bs (Suc j)) | Some p \<Rightarrow> head) ?M ret head' tail' pdev'"
        by simp
      from loop_post_compose_drop[where bs = bs and j = j and c = c and msg = msg and prev = prev
          and head = head and pdev = pdev and n = n and pdevM = ?M,
          OF True Suc.prems(5) inj_j mid post']
      have "loop_post c msg bs j (Suc (Suc n)) prev head pdev ret head' tail' pdev'" .
      moreover have
        "in_order_loop c rec msg (Suc (Suc n)) j (bs j) prev head tail pdev =
           Inr (ret, head', tail', pdev')"
        using step run unfolding Some by (simp only: option.case)
      ultimately show ?thesis by blast
    qed
  qed
qed

lemma filter_eq_single: "e < N \<Longrightarrow> filter (\<lambda>i. i = e) [0..<N] = [e]"
  by (induction N) (auto simp: less_Suc_eq)

lemma loop_postD:
  assumes "loop_post c msg bs j k prev head pdev ret head' tail' pdev'"
    and "map bs (filter (\<lambda>i. \<not> msdu_dropped c (msdus msg i)) [j..<j + k]) = G"
    and "map bs (filter (\<lambda>i. msdu_dropped c (msdus msg i)) [j..<j + k]) = D"
  shows "ret = (if G = [] \<and> prev = None then 0 else 1)"
    and "head' = (case prev of None \<Rightarrow> (if G = [] then None else Some (hd G)) | Some p \<Rightarrow> head)"
    and "tail' = (if G = [] then prev else Some (last G))"
    and "is_chain (nbufs pdev') (case prev of None \<Rightarrow> head' | Some p \<Rightarrow> nb_next (nbufs pdev' p)) G"
    and "\<forall>i. j \<le> i \<and> i < j + k \<longrightarrow> nb_len (nbufs pdev' (bs i)) = in_order_len c (msdus msg i)"
    and "mic_errors pdev' = mic_errors pdev @ D" and "freed pdev' = freed pdev @ D"
  using assms(1) unfolding loop_post_def Let_def assms(2) assms(3) by blast+

lemma in_order_pop_run:
  assumes cnt: "msdu_cnt msg = Suc n" and no_off: "\<not> offload_ind msg"
    and tbl: "hash_table pdev = Some tbl"
    and posted: "\<forall>i. i < Suc n \<longrightarrow>
        (\<exists>e. hash_list_peek tbl (posted_addr msg i) = Some e \<and> netbuf e = Some (bs i))"
    and dist_a: "\<forall>i i'. i < i' \<and> i' < Suc n \<longrightarrow> posted_addr msg i \<noteq> posted_addr msg i'"
    and dist_b: "\<forall>i i'. i < i' \<and> i' < Suc n \<longrightarrow> bs i \<noteq> bs i'"
  shows "\<exists>ret head' tail' pdev1 pdev'.
           htt_rx_amsdu_rx_in_order_pop_ll c rec pdev msg head tail = Inr (ret, head', tail', pdev') \<and>
           nbufs pdev1 = nbufs pdev \<and> mic_errors pdev1 = mic_errors pdev \<and> freed pdev1 = freed pdev \<and>
           loop_post c msg bs 0 (Suc n) None (Some (bs 0)) pdev1 ret head' tail' pdev'"
proof -
  from posted obtain e where
    e: "hash_list_peek tbl (htt_paddr_trim_to_37 (msdu_paddr (msdus msg 0))) = Some e"
       "netbuf e = Some (bs 0)"
    unfolding posted_addr_def by (metis zero_less_Suc)
  from pop_hit[OF tbl e, of rec] obtain pdev1 tbl1 where
    pop: "htt_rx_in_order_netbuf_pop rec pdev (msdu_paddr (msdus msg 0)) = Inr (Some (bs 0), pdev1)"
    and t1: "hash_table pdev1 = Some tbl1"
    and pk: "\<forall>a'. a' \<noteq> htt_paddr_trim_to_37 (msdu_paddr (msdus msg 0)) \<longrightarrow>
               hash_list_peek tbl1 a' = hash_list_peek tbl a'"
    and s1: "nbufs pdev1 = nbufs pdev" "mic_errors pdev1 = mic_errors pdev" "freed pdev1 = freed pdev"
    by blast
  have posted1: "\<forall>i. 0 < i \<and> i < 0 + Suc n \<longrightarrow>
      (\<exists>e. hash_list_peek tbl1 (posted_addr msg i) = Some e \<and> netbuf e = Some (bs i))"
  proof (intro allI impI)
    fix i assume i: "0 < i \<and> i < 0 + Suc n"
    then have "0 < i \<and> i < Suc n" by simp
    from dist_a[rule_format, OF this] have "posted_addr msg i \<noteq> posted_addr msg 0" by simp
    then have "hash_list_peek tbl1 (posted_addr msg i) = hash_list_peek tbl (posted_addr msg i)"
      using pk by (simp add: posted_addr_def)
    moreover from i have "i < Suc n" by simp
    from posted[rule_format, OF this]
    have "\<exists>e. hash_list_peek tbl (posted_addr msg i) = Some e \<and> netbuf e = Some (bs i)" .
    ultimately show "\<exists>e. hash_list_peek tbl1 (posted_addr msg i) = Some e \<and> netbuf e = Some (bs i)"
      by simp
  qed
  have ia: "\<forall>i i'. 0 < i \<and> i < i' \<and> i' < 0 + Suc n \<longrightarrow> posted_addr msg i \<noteq> posted_addr msg i'"
    using dist_a by simp
  have ib: "\<forall>i i'. 0 \<le> i \<and> i < i' \<and> i' < 0 + Suc n \<longrightarrow> bs i \<noteq> bs i'"
    using dist_b by simp
  have out: "\<forall>p. (None :: qdf_nbuf_t) = Some p \<longrightarrow> (\<forall>i. 0 \<le> i \<and> i < 0 + Suc n \<longrightarrow> bs i \<noteq> p)"
    by simp
  have link: "case (None :: qdf_nbuf_t) of None \<Rightarrow> Some (bs 0) = Some (bs 0)
      | Some p \<Rightarrow> nb_next (nbufs pdev1 p) = Some (bs 0)" by simp
  from in_order_loop_run[where bs = bs and j = 0 and prev = None and head = "Some (bs 0)"
      and pdev = pdev1 and tbl = tbl1 and n = n and msg = msg and c = c and rec = rec and tail = tail,
      OF t1 posted1 ia ib out link]
  obtain ret head' tail' pdev' where
    run: "in_order_loop c rec msg (Suc n) 0 (bs 0) None (Some (bs 0)) tail pdev1 =
            Inr (ret, head', tail', pdev')"
    and post: "loop_post c msg bs 0 (Suc n) None (Some (bs 0)) pdev1 ret head' tail' pdev'"
    by blast
  have "htt_rx_amsdu_rx_in_order_pop_ll c rec pdev msg head tail = Inr (ret, head', tail', pdev')"
    unfolding htt_rx_amsdu_rx_in_order_pop_ll_def using cnt no_off pop run
    by (simp only: nat.simps if_False sum.case prod.case option.case)
  with s1 post show ?thesis by blast
qed

text \<open>
  Claim C3: for a message declaring \<open>N = Suc n\<close> MSDUs whose buffers are posted
  under distinct addresses, none with an error flag and each declared length
  fitting a buffer, \<^verbatim>\<open>htt_rx_amsdu_rx_in_order_pop_ll\<close> returns 1 with a chain of
  exactly the \<open>N\<close> buffers in message order, the tail being the last buffer with a
  \<^verbatim>\<open>NULL\<close> next pointer, and every buffer's length is its declared length.
\<close>

theorem in_order_pop_all_good:
  assumes cnt: "msdu_cnt msg = Suc n" and no_off: "\<not> offload_ind msg"
    and tbl: "hash_table pdev = Some tbl"
    and posted: "\<forall>i. i < Suc n \<longrightarrow>
        (\<exists>e. hash_list_peek tbl (htt_paddr_trim_to_37 (msdu_paddr (msdus msg i))) = Some e \<and>
             netbuf e = Some (bs i))"
    and dist_a: "\<forall>i i'. i < i' \<and> i' < Suc n \<longrightarrow>
        htt_paddr_trim_to_37 (msdu_paddr (msdus msg i)) \<noteq>
        htt_paddr_trim_to_37 (msdu_paddr (msdus msg i'))"
    and dist_b: "\<forall>i i'. i < i' \<and> i' < Suc n \<longrightarrow> bs i \<noteq> bs i'"
    and no_err: "\<forall>i. i < Suc n \<longrightarrow> msdu_fw_desc (msdus msg i) AND FW_RX_DESC_ANY_ERR_M c = 0"
    and desc: "RX_STD_DESC_SIZE c = HTT_RX_STD_DESC_RESERVATION c"
    and fits: "\<forall>i. i < Suc n \<longrightarrow>
        msdu_len (msdus msg i) + HTT_RX_STD_DESC_RESERVATION c \<le> HTT_RX_BUF_SIZE c"
  shows "\<exists>pdev'. htt_rx_amsdu_rx_in_order_pop_ll c rec pdev msg head tail =
                    Inr (1, Some (bs 0), Some (bs n), pdev') \<and>
           is_chain (nbufs pdev') (Some (bs 0)) (map bs [0..<Suc n]) \<and>
           nb_next (nbufs pdev' (bs n)) = None \<and>
           (\<forall>i. i < Suc n \<longrightarrow> nb_len (nbufs pdev' (bs i)) = msdu_len (msdus msg i))"
proof -
  have p: "\<forall>i. i < Suc n \<longrightarrow>
        (\<exists>e. hash_list_peek tbl (posted_addr msg i) = Some e \<and> netbuf e = Some (bs i))"
    using posted by (simp add: posted_addr_def)
  have a: "\<forall>i i'. i < i' \<and> i' < Suc n \<longrightarrow> posted_addr msg i \<noteq> posted_addr msg i'"
    using dist_a by (simp add: posted_addr_def)
  from in_order_pop_run[where bs = bs, OF cnt no_off tbl p a dist_b, of c rec head tail]
  obtain ret head' tail' pdev1 pdev' where
    run: "htt_rx_amsdu_rx_in_order_pop_ll c rec pdev msg head tail = Inr (ret, head', tail', pdev')"
    and post: "loop_post c msg bs 0 (Suc n) None (Some (bs 0)) pdev1 ret head' tail' pdev'"
    by blast
  have good: "\<not> msdu_dropped c (msdus msg i)" if "i < Suc n" for i
    using no_err[rule_format, OF that] by (simp add: msdu_dropped_def)
  have "\<forall>x \<in> set [0..<0 + Suc n]. \<not> msdu_dropped c (msdus msg x)"
  proof
    fix x assume "x \<in> set [0..<0 + Suc n]"
    then have "x < Suc n" by (simp del: upt_Suc)
    then show "\<not> msdu_dropped c (msdus msg x)" by (rule good)
  qed
  then have "filter (\<lambda>i. \<not> msdu_dropped c (msdus msg i)) [0..<0 + Suc n] = [0..<0 + Suc n]"
    by (rule filter_True)
  then have G: "map bs (filter (\<lambda>i. \<not> msdu_dropped c (msdus msg i)) [0..<0 + Suc n]) =
      map bs [0..<Suc n]"
    by (simp del: upt_Suc)
  have hdG: "hd (map bs [0..<Suc n]) = bs 0" by (simp add: upt_conv_Cons del: upt_Suc)
  have lastG: "last (map bs [0..<Suc n]) = bs n" by simp
  have ne: "map bs [0..<Suc n] \<noteq> []" by simp
  note pd = loop_postD[OF post G refl]
  have r: "ret = 1" using pd(1) ne by (simp del: upt_Suc)
  have h: "head' = Some (bs 0)" using pd(2) ne hdG by (simp del: upt_Suc)
  have t: "tail' = Some (bs n)" using pd(3) ne lastG by (simp del: upt_Suc)
  have ch: "is_chain (nbufs pdev') head' (map bs [0..<Suc n])"
    using pd(4) by (simp del: upt_Suc)
  have len: "\<forall>i. 0 \<le> i \<and> i < 0 + Suc n \<longrightarrow>
        nb_len (nbufs pdev' (bs i)) = in_order_len c (msdus msg i)"
    by (rule pd(5))
  have lens: "\<forall>i. i < Suc n \<longrightarrow> nb_len (nbufs pdev' (bs i)) = msdu_len (msdus msg i)"
    using len fits in_order_len_fits[OF desc] by simp
  have last_null: "nb_next (nbufs pdev' (bs n)) = None"
  proof -
    have "\<And>st h xs b. is_chain st h (xs @ [b]) \<Longrightarrow> nb_next (st b) = None"
    proof -
      fix st :: "nat \<Rightarrow> qdf_nbuf" and h xs b
      show "is_chain st h (xs @ [b]) \<Longrightarrow> nb_next (st b) = None"
        by (induction xs arbitrary: h) auto
    qed
    from this[of "nbufs pdev'" head' "map bs [0..<n]" "bs n"] ch show ?thesis by simp
  qed
  have "htt_rx_amsdu_rx_in_order_pop_ll c rec pdev msg head tail =
      Inr (1, Some (bs 0), Some (bs n), pdev')"
    using run r h t by (simp only:)
  moreover have "is_chain (nbufs pdev') (Some (bs 0)) (map bs [0..<Suc n])"
    using ch h by (simp only:)
  ultimately show ?thesis using lens last_null by (intro exI[of _ pdev']) (simp only: simp_thms)
qed

text \<open>
  Claim C4: among \<open>N = Suc (Suc n)\<close> declared MSDUs exactly record \<open>k\<close> has the
  error flag set and the discard flag clear. The routine hands that one buffer to
  the error handler, frees it, and returns 1 with the chain of the other \<open>N - 1\<close>
  buffers in message order.
\<close>

theorem in_order_pop_one_mic_error:
  assumes cnt: "msdu_cnt msg = Suc (Suc n)" and no_off: "\<not> offload_ind msg"
    and tbl: "hash_table pdev = Some tbl"
    and posted: "\<forall>i. i < Suc (Suc n) \<longrightarrow>
        (\<exists>e. hash_list_peek tbl (htt_paddr_trim_to_37 (msdu_paddr (msdus msg i))) = Some e \<and>
             netbuf e = Some (bs i))"
    and dist_a: "\<forall>i i'. i < i' \<and> i' < Suc (Suc n) \<longrightarrow>
        htt_paddr_trim_to_37 (msdu_paddr (msdus msg i)) \<noteq>
        htt_paddr_trim_to_37 (msdu_paddr (msdus msg i'))"
    and dist_b: "\<forall>i i'. i < i' \<and> i' < Suc (Suc n) \<longrightarrow> bs i \<noteq> bs i'"
    and k: "k < Suc (Suc n)"
    and err: "msdu_fw_desc (msdus msg k) AND FW_RX_DESC_ANY_ERR_M c \<noteq> 0"
      "msdu_fw_desc (msdus msg k) AND FW_RX_DESC_DISCARD_M c = 0"
    and others: "\<forall>i. i < Suc (Suc n) \<and> i \<noteq> k \<longrightarrow>
        msdu_fw_desc (msdus msg i) AND FW_RX_DESC_ANY_ERR_M c = 0"
  shows "\<exists>pdev'. htt_rx_amsdu_rx_in_order_pop_ll c rec pdev msg head tail =
                    Inr (1, Some (hd (map bs (filter (\<lambda>i. i \<noteq> k) [0..<Suc (Suc n)]))),
                            Some (last (map bs (filter (\<lambda>i. i \<noteq> k) [0..<Suc (Suc n)]))), pdev') \<and>
           is_chain (nbufs pdev') (Some (hd (map bs (filter (\<lambda>i. i \<noteq> k) [0..<Suc (Suc n)]))))
             (map bs (filter (\<lambda>i. i \<noteq> k) [0..<Suc (Suc n)])) \<and>
           length (map bs (filter (\<lambda>i. i \<noteq> k) [0..<Suc (Suc n)])) = Suc n \<and>
           bs k \<notin> set (map bs (filter (\<lambda>i. i \<noteq> k) [0..<Suc (Suc n)])) \<and>
           mic_errors pdev' = mic_errors pdev @ [bs k] \<and>
           freed pdev' = freed pdev @ [bs k]"
proof -
  let ?N = "Suc (Suc n)"
  let ?ch = "map bs (filter (\<lambda>i. i \<noteq> k) [0..<?N])"
  have p: "\<forall>i. i < Suc (Suc n) \<longrightarrow>
        (\<exists>e. hash_list_peek tbl (posted_addr msg i) = Some e \<and> netbuf e = Some (bs i))"
    using posted by (simp add: posted_addr_def)
  have a: "\<forall>i i'. i < i' \<and> i' < Suc (Suc n) \<longrightarrow> posted_addr msg i \<noteq> posted_addr msg i'"
    using dist_a by (simp add: posted_addr_def)
  from in_order_pop_run[where bs = bs and n = "Suc n", OF cnt no_off tbl p a dist_b, of c rec head tail]
  obtain ret head' tail' pdev1 pdev' where
    run: "htt_rx_amsdu_rx_in_order_pop_ll c rec pdev msg head tail = Inr (ret, head', tail', pdev')"
    and s1: "mic_errors pdev1 = mic_errors pdev" "freed pdev1 = freed pdev"
    and post: "loop_post c msg bs 0 ?N None (Some (bs 0)) pdev1 ret head' tail' pdev'"
    by blast
  have dr: "msdu_dropped c (msdus msg i) = (i = k)" if "i < ?N" for i
  proof (cases "i = k")
    case True
    with err show ?thesis by (simp add: msdu_dropped_def)
  next
    case False
    with others[rule_format, of i] that show ?thesis by (simp add: msdu_dropped_def)
  qed
  have dr': "\<And>x. x \<in> set [0..<?N] \<Longrightarrow> msdu_dropped c (msdus msg x) = (x = k)"
  proof -
    fix x assume "x \<in> set [0..<?N]"
    then have "x < ?N" by (simp del: upt_Suc)
    then show "msdu_dropped c (msdus msg x) = (x = k)" by (rule dr)
  qed
  have "filter (\<lambda>i. \<not> msdu_dropped c (msdus msg i)) [0..<?N] = filter (\<lambda>i. i \<noteq> k) [0..<?N]"
    by (rule filter_cong[OF refl]) (simp only: dr')
  then have G: "map bs (filter (\<lambda>i. \<not> msdu_dropped c (msdus msg i)) [0..<0 + ?N]) = ?ch"
    by (simp del: upt_Suc)
  have "filter (\<lambda>i. msdu_dropped c (msdus msg i)) [0..<?N] = filter (\<lambda>i. i = k) [0..<?N]"
    by (rule filter_cong[OF refl]) (simp only: dr')
  with filter_eq_single[OF k]
  have D: "map bs (filter (\<lambda>i. msdu_dropped c (msdus msg i)) [0..<0 + ?N]) = [bs k]"
    by (simp del: upt_Suc)
  have "length (filter (\<lambda>i. i = k) [0..<?N]) + length (filter (\<lambda>i. \<not> i = k) [0..<?N]) =
      length [0..<?N]"
    by (rule sum_length_filter_compl)
  with filter_eq_single[OF k] have len: "length ?ch = Suc n" by (simp del: upt_Suc)
  then have ne: "?ch \<noteq> []" by auto
  have notin: "bs k \<notin> set ?ch"
  proof
    assume "bs k \<in> set ?ch"
    then obtain i where i: "i < ?N" "i \<noteq> k" "bs i = bs k" by (auto simp del: upt_Suc)
    then consider "i < k" | "k < i" by linarith
    then show False
    proof cases
      case 1
      with k dist_b i(3) show False by blast
    next
      case 2
      with i(1) dist_b i(3) show False by (metis)
    qed
  qed
  note pd = loop_postD[OF post G D]
  have r: "ret = 1" using pd(1) ne by (simp del: upt_Suc)
  have h: "head' = Some (hd ?ch)" using pd(2) ne by (simp del: upt_Suc)
  have t: "tail' = Some (last ?ch)" using pd(3) ne by (simp del: upt_Suc)
  have ch: "is_chain (nbufs pdev') (Some (hd ?ch)) ?ch"
    using pd(4) h by (simp del: upt_Suc)
  have "htt_rx_amsdu_rx_in_order_pop_ll c rec pdev msg head tail =
      Inr (1, Some (hd ?ch), Some (last ?ch), pdev')"
    using run r h t by (simp only:)
  with ch len notin pd(6,7) s1 show ?thesis by (intro exI[of _ pdev']) (simp only: simp_thms)
qed



lemma chain_result:
  assumes c1: "RX_STD_DESC_SIZE c \<le> HTT_RX_BUF_SIZE c" and c2: "HTT_RX_BUF_SIZE c < 2 ^ 31"
    and run: "amsdu_pop_ll_chain c pdev msdu l (Suc n) = Inr (pdev', lastb, l')"
  shows "l' = clamp_chained_len c (l - word_of_nat (Suc n * HTT_RX_BUF_SIZE c)) \<and>
         nb_len (nbufs pdev' lastb) =
           HTT_RX_BUF_SIZE c -
             nat (sint (last_chained_trim c (l - word_of_nat (Suc n * HTT_RX_BUF_SIZE c))))"
  using run
proof (induction n arbitrary: pdev msdu l)
  case 0
  let ?B = "HTT_RX_BUF_SIZE c"
  obtain q pdev1 where pop: "htt_rx_netbuf_pop pdev = (q, pdev1)" by (cases "htt_rx_netbuf_pop pdev")
  with "0.prems" obtain nxt where q: "q = Some nxt" by (cases q) auto
  let ?l1 = "l - word_of_nat ?B"
  let ?t = "sint (last_chained_trim c ?l1)"
  let ?P3 = "qdf_nbuf_set_next (qdf_nbuf_set_pktlen pdev1 nxt ?B) msdu (Some nxt)"
  have t0: "0 \<le> ?t" by (rule last_chained_trim_exact(2)[OF c1 c2])
  have "?t \<le> int ?B - int (RX_STD_DESC_SIZE c)" by (rule last_chained_trim_exact(3)[OF c1 c2])
  then have t1: "?t \<le> int ?B" by linarith
  note t = t0 t1
  have len3: "nb_len (nbufs ?P3 nxt) = ?B"
    by (simp add: qdf_nbuf_set_next_def qdf_nbuf_set_pktlen_def)
  from "0.prems" pop q have
    "pdev' = qdf_nbuf_trim_tail ?P3 nxt ?t" "lastb = nxt" "l' = clamp_chained_len c ?l1"
    by (auto simp add: Let_def)
  moreover have "nb_len (nbufs (qdf_nbuf_trim_tail ?P3 nxt ?t) nxt) = ?B - nat ?t"
    using t len3 by (simp add: qdf_nbuf_trim_tail_def)
  ultimately show ?case by simp
next
  case (Suc n)
  let ?B = "HTT_RX_BUF_SIZE c"
  obtain q pdev1 where pop: "htt_rx_netbuf_pop pdev = (q, pdev1)" by (cases "htt_rx_netbuf_pop pdev")
  with Suc.prems obtain nxt where q: "q = Some nxt" by (cases q) auto
  let ?l1 = "l - word_of_nat ?B"
  let ?P3 = "qdf_nbuf_set_next (qdf_nbuf_set_pktlen pdev1 nxt ?B) msdu (Some nxt)"
  from Suc.prems pop q have
    "amsdu_pop_ll_chain c ?P3 nxt ?l1 (Suc n) = Inr (pdev', lastb, l')"
    by (simp add: Let_def)
  from Suc.IH[OF this] have
    "l' = clamp_chained_len c (?l1 - word_of_nat (Suc n * ?B)) \<and>
     nb_len (nbufs pdev' lastb) =
       ?B - nat (sint (last_chained_trim c (?l1 - word_of_nat (Suc n * ?B))))" .
  moreover have "?l1 - word_of_nat (Suc n * ?B) = l - word_of_nat (Suc (Suc n) * ?B)"
    by simp
  ultimately show ?case by (simp only:)
qed

lemma clamp_chained_len_min:
  assumes "RX_STD_DESC_SIZE c \<le> HTT_RX_BUF_SIZE c" and "HTT_RX_BUF_SIZE c < 2 ^ 31"
  shows "uint (clamp_chained_len c l) =
           min (uint l) (int (HTT_RX_BUF_SIZE c) - int (RX_STD_DESC_SIZE c))"
proof -
  have cap: "uint (usable_capacity c) = int (HTT_RX_BUF_SIZE c) - int (RX_STD_DESC_SIZE c)"
    by (rule usable_capacity_uint[OF assms])
  have "uint (clamp_chained_len c l) = min (uint l) (uint (usable_capacity c))"
    by (simp add: clamp_chained_len_def word_less_def min_def)
  with cap show ?thesis by simp
qed

text \<open>
  Claim C5: after the chained-buffer loop over \<open>Suc n\<close> further buffers, for every
  32-bit residual length \<open>l\<close> on entry, the length left is the smaller of the
  residual (read as unsigned) and the capacity
  \<^verbatim>\<open>HTT_RX_BUF_SIZE - RX_STD_DESC_SIZE\<close>, so a residual within the capacity is
  kept and any other is replaced by the capacity; the trim applied to the last
  buffer is exactly capacity minus that length: a non-negative amount, which the
  last buffer is shortened by.
\<close>

theorem chained_last_trim_clamped:
  assumes c1: "RX_STD_DESC_SIZE c \<le> HTT_RX_BUF_SIZE c" and c2: "HTT_RX_BUF_SIZE c < 2 ^ 31"
    and run: "amsdu_pop_ll_chain c pdev msdu l (Suc n) = Inr (pdev', lastb, l')"
  shows "uint l' = min (uint (l - word_of_nat (Suc n * HTT_RX_BUF_SIZE c)))
                       (int (HTT_RX_BUF_SIZE c) - int (RX_STD_DESC_SIZE c)) \<and>
         l' = clamp_chained_len c (l - word_of_nat (Suc n * HTT_RX_BUF_SIZE c)) \<and>
         uint l' \<le> int (HTT_RX_BUF_SIZE c) - int (RX_STD_DESC_SIZE c) \<and>
         sint (last_chained_trim c (l - word_of_nat (Suc n * HTT_RX_BUF_SIZE c))) =
           int (HTT_RX_BUF_SIZE c) - (int (RX_STD_DESC_SIZE c) + uint l') \<and>
         0 \<le> sint (last_chained_trim c (l - word_of_nat (Suc n * HTT_RX_BUF_SIZE c))) \<and>
         nb_len (nbufs pdev' lastb) =
           HTT_RX_BUF_SIZE c -
             nat (sint (last_chained_trim c (l - word_of_nat (Suc n * HTT_RX_BUF_SIZE c))))"
proof -
  let ?r = "l - word_of_nat (Suc n * HTT_RX_BUF_SIZE c)"
  from chain_result[OF assms] have
    a: "l' = clamp_chained_len c ?r"
    and b: "nb_len (nbufs pdev' lastb) = HTT_RX_BUF_SIZE c - nat (sint (last_chained_trim c ?r))"
    by simp_all
  have e0: "uint (clamp_chained_len c ?r) =
      min (uint ?r) (int (HTT_RX_BUF_SIZE c) - int (RX_STD_DESC_SIZE c))"
    by (rule clamp_chained_len_min[OF c1 c2])
  have e1: "sint (last_chained_trim c ?r) =
      int (HTT_RX_BUF_SIZE c) - (int (RX_STD_DESC_SIZE c) + uint (clamp_chained_len c ?r))"
    by (rule last_chained_trim_exact(1)[OF c1 c2])
  have e2: "0 \<le> sint (last_chained_trim c ?r)"
    by (rule last_chained_trim_exact(2)[OF c1 c2])
  have e3: "uint (clamp_chained_len c ?r) \<le> int (HTT_RX_BUF_SIZE c) - int (RX_STD_DESC_SIZE c)"
    using clamp_chained_len_le[of c ?r] usable_capacity_uint[OF c1 c2] by simp
  show ?thesis
    unfolding a[symmetric] using a e0 e1 e2 e3 b
    by (intro conjI) (simp_all only:)
qed

lemma tbl_holds_peek_Some:
  assumes "tbl_holds t m" and "m a = Some b"
  shows "\<exists>e. hash_list_peek t a = Some e \<and> netbuf e = b"
proof -
  from assms have "hash_list_peek t a \<noteq> None" unfolding tbl_holds_def by blast
  then obtain e where e: "hash_list_peek t a = Some e" by auto
  then have "e \<in> set (listhead (t (RX_HASH_FUNCTION a))) \<and> paddr e = a"
    unfolding hash_list_peek_def by (rule find_paddr_SomeD)
  with assms(1) have "m a = Some (netbuf e)" unfolding tbl_holds_def by blast
  with assms(2) e show ?thesis by simp
qed


lemma trim_ex4: "htt_paddr_trim_to_37 0x3000 = 0x3000"
  by (simp add: htt_paddr_trim_to_37_def)

lemma trim_ex5: "htt_paddr_trim_to_37 0x2000002000 = 0x2000"
  by (simp add: htt_paddr_trim_to_37_def)

lemma example_posted_holds:
  assumes "insert_all True htt_rx_hash_init (take k example_posted) = Inr t1"
  shows "tbl_holds t1
           (map_of (map (\<lambda>x. (htt_paddr_trim_to_37 (fst x), snd x)) (take k example_posted)))"
proof -
  have a: "tbl_holds htt_rx_hash_init Map.empty"
    by (rule tbl_holds_empty) (simp add: htt_rx_hash_init_def)
  have "distinct (map (htt_paddr_trim_to_37 \<circ> fst) example_posted)"
    by (simp add: example_posted_def trim_ex3 trim_ex4 trim_ex5)
  then have b: "distinct (map (htt_paddr_trim_to_37 \<circ> fst) (take k example_posted))"
    unfolding take_map[symmetric] by (rule distinct_take)
  have c: "\<forall>x \<in> set (take k example_posted). Map.empty (htt_paddr_trim_to_37 (fst x)) = None"
    by simp
  from insert_all_holds[OF a b c assms] show ?thesis by simp
qed

lemma less_3: "(i::nat) < Suc 2 \<longleftrightarrow> i = 0 \<or> i = 1 \<or> i = 2"
  by auto

lemma less_2: "(i::nat) < Suc (Suc 0) \<longleftrightarrow> i = 0 \<or> i = 1"
  by auto


lemma pairs_below_3:
  "(i::nat) < i' \<and> i' < Suc 2 \<longleftrightarrow> (i = 0 \<and> i' = 1) \<or> (i = 0 \<and> i' = 2) \<or> (i = 1 \<and> i' = 2)"
  by auto

lemma pairs_upto_1: "(i::nat) < i' \<and> i' \<le> 1 \<longleftrightarrow> i = 0 \<and> i' = 1"
  by auto

lemma example_paddr_2: "example_paddr 2 = 0x3000"
  by (simp add: numeral_2_eq_2)

lemma example_msg_fields:
  "msdu_cnt (example_msg fw) = 3"
  "\<not> offload_ind (example_msg fw)"
  "msdu_paddr (msdus (example_msg fw) i) = example_paddr i"
  "msdu_len (msdus (example_msg fw) i) = 100 * Suc i"
  "msdu_fw_desc (msdus (example_msg fw) i) = (if i = 1 then fw else 0)"
  by (simp_all add: example_msg_def)

lemma example_pdev_fields:
  "hash_table (example_pdev t) = Some t"
  "nbufs (example_pdev t) = stale_store"
  "pop_fail_cnt (example_pdev t) = 0"
  "recovery_triggers (example_pdev t) = 0"
  "mic_errors (example_pdev t) = []"
  "freed (example_pdev t) = []"
  by (simp_all add: example_pdev_def htt_rx_attach_state_def)

lemma example_posted_peek:
  assumes "insert_all True htt_rx_hash_init example_posted = Inr t1"
  shows "\<exists>e. hash_list_peek t1 0x1000 = Some e \<and> netbuf e = Some 10"
    and "\<exists>e. hash_list_peek t1 0x2000 = Some e \<and> netbuf e = Some 11"
    and "\<exists>e. hash_list_peek t1 0x3000 = Some e \<and> netbuf e = Some 12"
proof -
  from assms have "insert_all True htt_rx_hash_init (take 3 example_posted) = Inr t1"
    by (simp add: example_posted_def)
  from example_posted_holds[OF this]
  have h: "tbl_holds t1 (map_of [(0x1000, Some 10), (0x2000, Some 11), (0x3000, Some 12)])"
    by (simp add: example_posted_def trim_ex3 trim_ex4 trim_ex5)
  show "\<exists>e. hash_list_peek t1 0x1000 = Some e \<and> netbuf e = Some 10"
    by (rule tbl_holds_peek_Some[OF h]) simp
  show "\<exists>e. hash_list_peek t1 0x2000 = Some e \<and> netbuf e = Some 11"
    by (rule tbl_holds_peek_Some[OF h]) simp
  show "\<exists>e. hash_list_peek t1 0x3000 = Some e \<and> netbuf e = Some 12"
    by (rule tbl_holds_peek_Some[OF h]) simp
qed


text \<open>Claim C3 at a concrete input: three posted buffers, no error flag.\<close>

theorem in_order_pop_all_good_witness:
  "\<exists>t1 pdev'. insert_all True htt_rx_hash_init example_posted = Inr t1 \<and>
     htt_rx_amsdu_rx_in_order_pop_ll example_consts False (example_pdev t1) (example_msg 0)
       None None = Inr (1, Some 10, Some 12, pdev') \<and>
     is_chain (nbufs pdev') (Some 10) [10, 11, 12] \<and>
     map (\<lambda>b. nb_len (nbufs pdev' b)) [10, 11, 12] = [100, 200, 300]"
proof -
  obtain t1 where t1: "insert_all True htt_rx_hash_init example_posted = Inr t1"
    using insert_all_malloc_ok by blast
  note pk = example_posted_peek[OF t1]
  let ?msg = "example_msg 0" and ?c = example_consts
  let ?bs = "\<lambda>i::nat. 10 + i"
  have cnt: "msdu_cnt ?msg = Suc 2" by (simp add: example_msg_fields)
  have no_off: "\<not> offload_ind ?msg" by (rule example_msg_fields)
  have tbl: "hash_table (example_pdev t1) = Some t1" by (rule example_pdev_fields)
  have posted: "\<forall>i. i < Suc 2 \<longrightarrow>
      (\<exists>e. hash_list_peek t1 (htt_paddr_trim_to_37 (msdu_paddr (msdus ?msg i))) = Some e \<and>
           netbuf e = Some (?bs i))"
    unfolding less_3 using pk by (auto simp: example_msg_fields example_paddr_2 trim_ex3 trim_ex4 trim_ex5)
  have dist_a: "\<forall>i i'. i < i' \<and> i' < Suc 2 \<longrightarrow>
      htt_paddr_trim_to_37 (msdu_paddr (msdus ?msg i)) \<noteq>
      htt_paddr_trim_to_37 (msdu_paddr (msdus ?msg i'))"
    unfolding pairs_below_3 by (auto simp: example_msg_fields example_paddr_2 trim_ex3 trim_ex4 trim_ex5)
  have dist_b: "\<forall>i i'. i < i' \<and> i' < Suc 2 \<longrightarrow> ?bs i \<noteq> ?bs i'" by simp
  have no_err: "\<forall>i. i < Suc 2 \<longrightarrow> msdu_fw_desc (msdus ?msg i) AND FW_RX_DESC_ANY_ERR_M ?c = 0"
    by (simp add: example_msg_fields)
  have desc: "RX_STD_DESC_SIZE ?c = HTT_RX_STD_DESC_RESERVATION ?c"
    by (simp add: example_consts_def)
  have fits: "\<forall>i. i < Suc 2 \<longrightarrow>
      msdu_len (msdus ?msg i) + HTT_RX_STD_DESC_RESERVATION ?c \<le> HTT_RX_BUF_SIZE ?c"
    unfolding less_3 by (auto simp: example_msg_fields example_consts_def)
  from in_order_pop_all_good[where n = 2 and bs = ?bs and c = ?c and pdev = "example_pdev t1"
      and tbl = t1 and msg = ?msg and rec = False and head = None and tail = None,
      OF cnt no_off tbl posted dist_a dist_b no_err desc fits]
  obtain pdev' where
    r: "htt_rx_amsdu_rx_in_order_pop_ll ?c False (example_pdev t1) ?msg None None =
          Inr (1, Some (10 + 0), Some (10 + 2), pdev')"
    and ch: "is_chain (nbufs pdev') (Some (10 + 0)) (map ?bs [0..<Suc 2])"
    and ln: "\<forall>i. i < Suc 2 \<longrightarrow> nb_len (nbufs pdev' (10 + i)) = msdu_len (msdus ?msg i)"
    by blast
  have u: "[0..<Suc 2] = [0, 1, 2]" by (simp add: upt_rec)
  from ln have "nb_len (nbufs pdev' 10) = 100" "nb_len (nbufs pdev' 11) = 200"
    "nb_len (nbufs pdev' 12) = 300"
    unfolding less_3 by (auto simp: example_msg_fields)
  with t1 r ch show ?thesis unfolding u by auto
qed

text \<open>Claim C4 at a concrete input: the second of three records carries the error flag.\<close>

theorem in_order_pop_one_mic_error_witness:
  "\<exists>t1 pdev'. insert_all True htt_rx_hash_init example_posted = Inr t1 \<and>
     htt_rx_amsdu_rx_in_order_pop_ll example_consts False (example_pdev t1) (example_msg 4)
       None None = Inr (1, Some 10, Some 12, pdev') \<and>
     is_chain (nbufs pdev') (Some 10) [10, 12] \<and>
     mic_errors pdev' = [11] \<and> freed pdev' = [11]"
proof -
  obtain t1 where t1: "insert_all True htt_rx_hash_init example_posted = Inr t1"
    using insert_all_malloc_ok by blast
  note pk = example_posted_peek[OF t1]
  let ?msg = "example_msg 4" and ?c = example_consts
  let ?bs = "\<lambda>i::nat. 10 + i"
  have cnt: "msdu_cnt ?msg = Suc (Suc 1)" by (simp add: example_msg_fields)
  have no_off: "\<not> offload_ind ?msg" by (rule example_msg_fields)
  have tbl: "hash_table (example_pdev t1) = Some t1" by (rule example_pdev_fields)
  have s: "Suc (Suc 1) = Suc 2" by simp
  have posted: "\<forall>i. i < Suc (Suc 1) \<longrightarrow>
      (\<exists>e. hash_list_peek t1 (htt_paddr_trim_to_37 (msdu_paddr (msdus ?msg i))) = Some e \<and>
           netbuf e = Some (?bs i))"
    unfolding s less_3 using pk by (auto simp: example_msg_fields example_paddr_2 trim_ex3 trim_ex4 trim_ex5)
  have dist_a: "\<forall>i i'. i < i' \<and> i' < Suc (Suc 1) \<longrightarrow>
      htt_paddr_trim_to_37 (msdu_paddr (msdus ?msg i)) \<noteq>
      htt_paddr_trim_to_37 (msdu_paddr (msdus ?msg i'))"
    unfolding s pairs_below_3 by (auto simp: example_msg_fields example_paddr_2 trim_ex3 trim_ex4 trim_ex5)
  have dist_b: "\<forall>i i'. i < i' \<and> i' < Suc (Suc 1) \<longrightarrow> ?bs i \<noteq> ?bs i'" by simp
  have k: "(1::nat) < Suc (Suc 1)" by simp
  have err: "msdu_fw_desc (msdus ?msg 1) AND FW_RX_DESC_ANY_ERR_M ?c \<noteq> 0"
    "msdu_fw_desc (msdus ?msg 1) AND FW_RX_DESC_DISCARD_M ?c = 0"
    by (simp_all add: example_msg_fields example_consts_def)
  have others: "\<forall>i. i < Suc (Suc 1) \<and> i \<noteq> 1 \<longrightarrow>
      msdu_fw_desc (msdus ?msg i) AND FW_RX_DESC_ANY_ERR_M ?c = 0"
    by (simp add: example_msg_fields)
  have u: "filter (\<lambda>i. i \<noteq> 1) [0..<Suc (Suc 1)] = [0, 2]" by (simp add: upt_rec)
  from in_order_pop_one_mic_error[where n = 1 and k = 1 and bs = ?bs and c = ?c
      and pdev = "example_pdev t1" and tbl = t1 and msg = ?msg and rec = False
      and head = None and tail = None,
      OF cnt no_off tbl posted dist_a dist_b k err others]
  obtain pdev' where
    "htt_rx_amsdu_rx_in_order_pop_ll ?c False (example_pdev t1) ?msg None None =
       Inr (1, Some 10, Some 12, pdev')"
    "is_chain (nbufs pdev') (Some 10) [10, 12]"
    "mic_errors pdev' = [11]" "freed pdev' = [11]"
    unfolding u by (auto simp: example_pdev_fields)
  with t1 show ?thesis by blast
qed


text \<open>
  Claim C5 at concrete inputs, one more buffer of 1920 bytes in both: a residual
  of 3000 bytes leaves 1080, within the capacity 1672, and 592 bytes are trimmed;
  a residual of 100 bytes underflows, is clamped to 1672, and nothing is trimmed.
\<close>

theorem chained_last_trim_clamped_witness:
  "\<exists>pdev1 pdev2.
     amsdu_pop_ll_chain example_consts example_ring_pdev 0 3000 (Suc 0) = Inr (pdev1, 1, 1080) \<and>
     sint (last_chained_trim example_consts (3000 - word_of_nat (Suc 0 * 1920))) = 592 \<and>
     nb_len (nbufs pdev1 1) = 1328 \<and>
     amsdu_pop_ll_chain example_consts example_ring_pdev 0 100 (Suc 0) = Inr (pdev2, 1, 1672) \<and>
     sint (last_chained_trim example_consts (100 - word_of_nat (Suc 0 * 1920))) = 0 \<and>
     nb_len (nbufs pdev2 1) = 1920"
proof -
  let ?c = example_consts
  have c1: "RX_STD_DESC_SIZE ?c \<le> HTT_RX_BUF_SIZE ?c" by (simp add: example_consts_def)
  have c2: "HTT_RX_BUF_SIZE ?c < 2 ^ 31" by (simp add: example_consts_def)
  have pop: "htt_rx_netbuf_pop example_ring_pdev =
      (Some 1, example_ring_pdev\<lparr>sw_rd_idx := 1, fill_cnt := -1\<rparr>)"
    by (simp add: htt_rx_netbuf_pop_def example_ring_pdev_def htt_rx_attach_state_def Let_def
        ring_size_40)
  have "\<exists>pdev' l'. amsdu_pop_ll_chain ?c example_ring_pdev 0 3000 (Suc 0) = Inr (pdev', 1, l')"
    by (simp add: pop Let_def)
  then obtain pdev1 l1 where
    run1: "amsdu_pop_ll_chain ?c example_ring_pdev 0 3000 (Suc 0) = Inr (pdev1, 1, l1)" by blast
  have "\<exists>pdev' l'. amsdu_pop_ll_chain ?c example_ring_pdev 0 100 (Suc 0) = Inr (pdev', 1, l')"
    by (simp add: pop Let_def)
  then obtain pdev2 l2 where
    run2: "amsdu_pop_ll_chain ?c example_ring_pdev 0 100 (Suc 0) = Inr (pdev2, 1, l2)" by blast
  have bs: "HTT_RX_BUF_SIZE ?c = 1920" "RX_STD_DESC_SIZE ?c = 248"
    by (simp_all add: example_consts_def)
  have u1: "uint (3000 - word_of_nat (Suc 0 * 1920) :: 32 word) = 1080" by simp
  have u2: "uint (100 - word_of_nat (Suc 0 * 1920) :: 32 word) = 4294965476" by simp
  note r1 = chained_last_trim_clamped[OF c1 c2 run1]
  note r2 = chained_last_trim_clamped[OF c1 c2 run2]
  have a1: "uint l1 = 1080"
    using r1[THEN conjunct1] by (simp add: bs u1)
  have t1: "sint (last_chained_trim ?c (3000 - word_of_nat (Suc 0 * 1920))) = 592"
    using r1[THEN conjunct2, THEN conjunct2, THEN conjunct2, THEN conjunct1] a1
    by (simp add: bs)
  have n1: "nb_len (nbufs pdev1 1) = 1328"
    using r1[THEN conjunct2, THEN conjunct2, THEN conjunct2, THEN conjunct2, THEN conjunct2] t1
    by (simp add: bs)
  have a2: "uint l2 = 1672"
    using r2[THEN conjunct1] by (simp add: bs u2)
  have t2: "sint (last_chained_trim ?c (100 - word_of_nat (Suc 0 * 1920))) = 0"
    using r2[THEN conjunct2, THEN conjunct2, THEN conjunct2, THEN conjunct1] a2
    by (simp add: bs)
  have n2: "nb_len (nbufs pdev2 1) = 1920"
    using r2[THEN conjunct2, THEN conjunct2, THEN conjunct2, THEN conjunct2, THEN conjunct2] t2
    by (simp add: bs)
  from a1 have l1: "l1 = 1080" by (simp add: word_uint_eq_iff)
  from a2 have l2: "l2 = 1672" by (simp add: word_uint_eq_iff)
  from run1 run2 t1 t2 n1 n2 show ?thesis unfolding l1 l2 by blast
qed

end
